theory Spec2Isabelle
  imports Complex_Main "HOL-Library.Monad_Syntax" "HOL-Library.Multiset"
begin

section \<open>Data model (headers/cms.h)\<close>

text \<open>
  The student database of \<^verbatim>\<open>cms.c\<close> keeps its records in malloc'ed nodes that are
  linked twice: through \<^verbatim>\<open>next\<close> into the insertion-ordered list and through
  \<^verbatim>\<open>hashNext\<close> into a bucket of the hash table. Several claims depend on which of
  the two pointers a loop follows, so the nodes live in an explicit store: a map from
  addresses to nodes, where \<open>None\<close> is memory that was never allocated or has been
  freed. A pointer is an \<open>addr option\<close>, \<open>None\<close> being \<^verbatim>\<open>NULL\<close>.

  Every operation returns an \<open>option\<close>. \<open>None\<close> means that the C call has no defined
  result: it dereferences a freed pointer, indexes the table out of range, overruns a
  fixed buffer, overflows an \<^verbatim>\<open>int\<close>, or walks a list for ever.

  Conventions: an \<^verbatim>\<open>int\<close> is an \<open>int\<close> (overflow is written out where the code can
  reach it); a \<^verbatim>\<open>float\<close> mark is the rational number it denotes; a C string is the
  \<open>string\<close> of its bytes before the terminator; \<^verbatim>\<open>malloc\<close> succeeds and returns an
  address never used before, so a pointer to a freed node stays invalid.
\<close>

type_synonym addr = nat

definition MAX_LINE :: nat where "MAX_LINE = 256"
definition MAX_NAME :: nat where "MAX_NAME = 100"
definition MAX_PROGRAMME :: nat where "MAX_PROGRAMME = 100"
definition TABLE_SIZE :: int where "TABLE_SIZE = 2003"

definition INT_MIN :: int where "INT_MIN = - 2147483648"
definition INT_MAX :: int where "INT_MAX = 2147483647"

record StudentRecord =
  id_num :: int
  name :: string
  programme :: string
  mark :: rat

record Node =
  data :: StudentRecord
  nextp :: "addr option"
  hashNext :: "addr option"

text \<open>
  An \<^verbatim>\<open>Action\<close> is a struct of a tag and two records of which only some are
  initialised; each constructor carries the fields that the code has written for its tag
  (\<^verbatim>\<open>newData\<close> for an insert, \<^verbatim>\<open>oldData\<close> and \<^verbatim>\<open>newData\<close> for an update,
  \<^verbatim>\<open>oldData\<close> for a delete). The two stacks are lists, top first.
\<close>

datatype Action =
    INSERT_OP StudentRecord
  | UPDATE_OP StudentRecord StudentRecord
  | DELETE_OP StudentRecord
  | RESTORE_OP

text \<open>One constructor for each \<^verbatim>\<open>printf\<close> of the modelled functions.\<close>

datatype message =
    NothingToUndo | UndidInsert int | UndidUpdate int | UndidDelete int | UndidRestore
  | NothingToRedo | RedidInsert int | RedidUpdate int | RedidDelete int | RedidRestore
  | AlreadyOpened | CouldNotOpen string | SuccessfullyOpened
  | AlreadyExists int | Inserted int | DoesNotExist int | Updated int | Deleted int
  | NothingToSave | NoChanges | ErrorSaving | Saved
  | BackupMissing | Restored
  | NoRecordsToDisplay | SortedListing bool bool "StudentRecord list"
  | NoRecordsLoaded | InvalidCommand string

type_synonym heap = "addr \<Rightarrow> Node option"

record cms =
  heap :: heap
  fresh :: addr
  head :: "addr option"
  tail :: "addr option"
  hashTable :: "int \<Rightarrow> addr option"
  dbModified :: bool
  dbLoaded :: bool
  undoStack :: "Action list"
  redoStack :: "Action list"
  files :: "string \<Rightarrow> string option"
  writable :: "string \<Rightarrow> bool"
  out :: "message list"

text \<open>
  \<open>files\<close> maps a path to the bytes of the file that \<^verbatim>\<open>fopen(path, "r")\<close> opens, and
  \<open>writable\<close> tells whether \<^verbatim>\<open>fopen(path, "w")\<close> succeeds. The program starts with
  all globals zero.
\<close>

definition init :: "(string \<Rightarrow> string option) \<Rightarrow> cms" where
  "init fs = \<lparr>heap = (\<lambda>_. None), fresh = 0, head = None, tail = None,
     hashTable = (\<lambda>_. None), dbModified = False, dbLoaded = False,
     undoStack = [], redoStack = [], files = fs, writable = (\<lambda>_. True), out = []\<rparr>"

definition say :: "message \<Rightarrow> cms \<Rightarrow> cms" where
  "say m s = s\<lparr>out := out s @ [m]\<rparr>"

definition primary_path :: string where "primary_path = ''./data/P4_1-CMS.txt''"
definition backup_path :: string where "backup_path = ''./data/P4_1-CMS.bak''"

section \<open>Hash table (cms.c, hash .. findNode)\<close>

text \<open>\<^verbatim>\<open>id % TABLE_SIZE\<close> truncates towards zero, so a negative id gives a negative index.\<close>

definition hash :: "int \<Rightarrow> int" where
  "hash i = (if 0 \<le> i then i mod TABLE_SIZE else - ((- i) mod TABLE_SIZE))"

definition in_table :: "int \<Rightarrow> bool" where
  "in_table ix = (0 \<le> ix \<and> ix < TABLE_SIZE)"

definition hashInsert :: "addr \<Rightarrow> cms \<Rightarrow> cms option" where
  "hashInsert a s =
     (case heap s a of
        None \<Rightarrow> None
      | Some n \<Rightarrow>
          let index = hash (id_num (data n)) in
          if in_table index
          then Some (s\<lparr>heap := (heap s)(a \<mapsto> n\<lparr>hashNext := hashTable s index\<rparr>),
                       hashTable := (hashTable s)(index := Some a)\<rparr>)
          else None)"

text \<open>
  The loop of \<^verbatim>\<open>hashRemove\<close> walks from the bucket head along \<^verbatim>\<open>cur->next\<close>, the
  list pointer, and at the match writes \<^verbatim>\<open>prev->next\<close> or the bucket head.
\<close>

partial_function (option) hashRemove_loop ::
  "int \<Rightarrow> int \<Rightarrow> addr option \<Rightarrow> addr option \<Rightarrow> cms \<Rightarrow> cms option" where
  "hashRemove_loop index i prev cur s =
     (case cur of
        None \<Rightarrow> Some s
      | Some c \<Rightarrow>
          (case heap s c of
             None \<Rightarrow> None
           | Some n \<Rightarrow>
               if id_num (data n) = i
               then (case prev of
                       Some p \<Rightarrow>
                         (case heap s p of
                            None \<Rightarrow> None
                          | Some pn \<Rightarrow> Some (s\<lparr>heap := (heap s)(p \<mapsto> pn\<lparr>nextp := nextp n\<rparr>)\<rparr>))
                     | None \<Rightarrow> Some (s\<lparr>hashTable := (hashTable s)(index := nextp n)\<rparr>))
               else hashRemove_loop index i (Some c) (nextp n) s))"

declare hashRemove_loop.simps [code]

definition hashRemove :: "int \<Rightarrow> cms \<Rightarrow> cms option" where
  "hashRemove i s =
     (let index = hash i in
      if in_table index then hashRemove_loop index i None (hashTable s index) s else None)"

text \<open>\<^verbatim>\<open>findNode\<close> too follows \<^verbatim>\<open>cur->next\<close> from the bucket head.\<close>

partial_function (option) findNode_loop :: "heap \<Rightarrow> addr option \<Rightarrow> int \<Rightarrow> addr option option" where
  "findNode_loop h cur i =
     (case cur of
        None \<Rightarrow> Some None
      | Some c \<Rightarrow>
          (case h c of
             None \<Rightarrow> None
           | Some n \<Rightarrow> if id_num (data n) = i then Some (Some c) else findNode_loop h (nextp n) i))"

declare findNode_loop.simps [code]

definition findNode :: "cms \<Rightarrow> int \<Rightarrow> addr option option" where
  "findNode s i =
     (let index = hash i in
      if in_table index then findNode_loop (heap s) (hashTable s index) i else None)"

section \<open>History (cms.c, pushUndo)\<close>

definition pushUndo :: "Action \<Rightarrow> cms \<Rightarrow> cms" where
  "pushUndo action s = s\<lparr>undoStack := action # undoStack s, redoStack := []\<rparr>"

section \<open>Walking the record list (cms.c, cloneList, freeDB)\<close>

text \<open>
  \<^verbatim>\<open>cloneList\<close> copies the data of the nodes from \<open>original\<close> on, in list order, into
  a list of its own; the copy shares nothing with the store, so it is a HOL list.
\<close>

partial_function (option) cloneList :: "heap \<Rightarrow> addr option \<Rightarrow> StudentRecord list option" where
  "cloneList h original =
     (case original of
        None \<Rightarrow> Some []
      | Some a \<Rightarrow>
          (case h a of
             None \<Rightarrow> None
           | Some n \<Rightarrow> do { rest \<leftarrow> cloneList h (nextp n); Some (data n # rest) }))"

declare cloneList.simps [code]

definition records :: "cms \<Rightarrow> StudentRecord list option" where
  "records s = cloneList (heap s) (head s)"

partial_function (option) freeDB_loop :: "addr option \<Rightarrow> heap \<Rightarrow> heap option" where
  "freeDB_loop current h =
     (case current of
        None \<Rightarrow> Some h
      | Some a \<Rightarrow>
          (case h a of
             None \<Rightarrow> None
           | Some n \<Rightarrow> freeDB_loop (nextp n) (h(a := None))))"

declare freeDB_loop.simps [code]

definition freeDB :: "cms \<Rightarrow> cms option" where
  "freeDB s = do { h \<leftarrow> freeDB_loop (head s) (heap s); Some (s\<lparr>heap := h, head := None\<rparr>) }"

section \<open>Mutations (cms.c, insertDB, updateDB, deleteDB)\<close>

text \<open>
  \<^verbatim>\<open>insertDB\<close> and the loop body of \<^verbatim>\<open>loadDB\<close> create a node with the same
  statements: allocate, copy the fields (\<^verbatim>\<open>strcpy\<close> into buffers of 100 bytes), clear
  both pointers, link the node behind \<^verbatim>\<open>tail\<close>, call \<^verbatim>\<open>hashInsert\<close>.
\<close>

definition append_node :: "StudentRecord \<Rightarrow> cms \<Rightarrow> cms option" where
  "append_node r s =
     (if length (name r) < MAX_NAME \<and> length (programme r) < MAX_PROGRAMME
      then do {
        let newNode = fresh s;
        let s1 = s\<lparr>heap := (heap s)(newNode \<mapsto> \<lparr>data = r, nextp = None, hashNext = None\<rparr>),
                    fresh := Suc newNode\<rparr>;
        s2 \<leftarrow> (case head s1 of
                None \<Rightarrow> Some (s1\<lparr>head := Some newNode, tail := Some newNode\<rparr>)
              | Some _ \<Rightarrow>
                  (case tail s1 of
                     None \<Rightarrow> None
                   | Some t \<Rightarrow>
                       (case heap s1 t of
                          None \<Rightarrow> None
                        | Some tn \<Rightarrow>
                            Some (s1\<lparr>heap := (heap s1)(t \<mapsto> tn\<lparr>nextp := Some newNode\<rparr>),
                                     tail := Some newNode\<rparr>))));
        hashInsert newNode s2 }
      else None)"

definition insertDB :: "int \<Rightarrow> string \<Rightarrow> string \<Rightarrow> rat \<Rightarrow> bool \<Rightarrow> cms \<Rightarrow> cms option" where
  "insertDB newID newName newProgramme newMark isUndoRedo s =
     do {
       found \<leftarrow> findNode s newID;
       case found of
         Some _ \<Rightarrow> Some (if \<not> isUndoRedo then say (AlreadyExists newID) s else s)
       | None \<Rightarrow> do {
           let r = \<lparr>id_num = newID, name = newName, programme = newProgramme, mark = newMark\<rparr>;
           s1 \<leftarrow> append_node r s;
           let s2 = (if \<not> isUndoRedo then say (Inserted newID) (pushUndo (INSERT_OP r) s1) else s1);
           Some (s2\<lparr>dbModified := True\<rparr>) } }"

definition updateDB :: "int \<Rightarrow> string \<Rightarrow> string \<Rightarrow> rat \<Rightarrow> bool \<Rightarrow> cms \<Rightarrow> cms option" where
  "updateDB i nm prog mk isUndoRedo s =
     do {
       found \<leftarrow> findNode s i;
       case found of
         None \<Rightarrow> Some (if \<not> isUndoRedo then say (DoesNotExist i) s else s)
       | Some a \<Rightarrow>
           (case heap s a of
              None \<Rightarrow> None
            | Some n \<Rightarrow>
                if length nm < MAX_NAME \<and> length prog < MAX_PROGRAMME
                then do {
                  let old = data n;
                  let r1 = (if nm \<noteq> [] then old\<lparr>name := nm\<rparr> else old);
                  let r2 = (if prog \<noteq> [] then r1\<lparr>programme := prog\<rparr> else r1);
                  let r3 = (if 0 \<le> mk then r2\<lparr>mark := mk\<rparr> else r2);
                  let s1 = s\<lparr>heap := (heap s)(a \<mapsto> n\<lparr>data := r3\<rparr>)\<rparr>;
                  let s2 = (if \<not> isUndoRedo then say (Updated i) (pushUndo (UPDATE_OP old r3) s1) else s1);
                  Some (s2\<lparr>dbModified := True\<rparr>) }
                else None) }"

text \<open>
  The search loop of \<^verbatim>\<open>deleteDB\<close> walks the list from \<^verbatim>\<open>head\<close> and stops at the
  first node with the id; it yields \<^verbatim>\<open>prev\<close> and \<^verbatim>\<open>current\<close>.
\<close>

partial_function (option) deleteDB_loop ::
  "heap \<Rightarrow> addr option \<Rightarrow> addr option \<Rightarrow> int \<Rightarrow> (addr option \<times> addr option) option" where
  "deleteDB_loop h prev current i =
     (case current of
        None \<Rightarrow> Some (prev, None)
      | Some c \<Rightarrow>
          (case h c of
             None \<Rightarrow> None
           | Some n \<Rightarrow>
               if id_num (data n) \<noteq> i then deleteDB_loop h (Some c) (nextp n) i
               else Some (prev, Some c)))"

declare deleteDB_loop.simps [code]

definition deleteDB :: "int \<Rightarrow> bool \<Rightarrow> bool \<Rightarrow> cms \<Rightarrow> (int \<times> cms) option" where
  "deleteDB i confirm isUndoRedo s =
     do {
       (prev, current) \<leftarrow> deleteDB_loop (heap s) None (head s) i;
       case current of
         None \<Rightarrow> Some (0, s)
       | Some c \<Rightarrow>
           if \<not> confirm then Some (1, s)
           else (case heap s c of
              None \<Rightarrow> None
            | Some n \<Rightarrow> do {
                let s1 = (if \<not> isUndoRedo then pushUndo (DELETE_OP (data n)) s else s);
                s2 \<leftarrow> (case prev of
                        None \<Rightarrow> Some (s1\<lparr>head := nextp n\<rparr>)
                      | Some p \<Rightarrow>
                          (case heap s1 p of
                             None \<Rightarrow> None
                           | Some pn \<Rightarrow> Some (s1\<lparr>heap := (heap s1)(p \<mapsto> pn\<lparr>nextp := nextp n\<rparr>)\<rparr>)));
                let s3 = (if Some c = tail s2 then s2\<lparr>tail := prev\<rparr> else s2);
                s4 \<leftarrow> hashRemove i s3;
                let s5 = s4\<lparr>heap := (heap s4)(c := None)\<rparr>;
                let s6 = (if \<not> isUndoRedo then say (Deleted i) s5 else s5);
                Some (1, s6\<lparr>dbModified := True\<rparr>) }) }"

section \<open>C library functions on strings\<close>

text \<open>
  The functions of the C library that the code calls on strings, in the "C" locale.
  \<^verbatim>\<open>atoi\<close> has no defined result when the value does not fit an \<^verbatim>\<open>int\<close>.
  The two conversions between marks and text, \<^verbatim>\<open>atof\<close> and \<^verbatim>\<open>printf("%.1f")\<close>,
  depend on binary floating point; the operations that call them take them as the
  parameters \<open>atof\<close> and \<open>fmt1\<close>.
\<close>

definition NUL :: char where "NUL = CHR 0x00"
definition TAB :: char where "TAB = CHR 0x09"
definition LF :: char where "LF = CHR 0x0A"
definition CR :: char where "CR = CHR 0x0D"

definition isspace_c :: "char \<Rightarrow> bool" where
  "isspace_c c = (c = CHR '' '' \<or> c = TAB \<or> c = LF \<or> c = CHR 0x0B \<or> c = CHR 0x0C \<or> c = CR)"

definition isdigit_c :: "char \<Rightarrow> bool" where
  "isdigit_c c = ((48::nat) \<le> of_char c \<and> of_char c \<le> (57::nat))"

definition c_str :: "string \<Rightarrow> string" where
  "c_str bytes = takeWhile (\<lambda>c. c \<noteq> NUL) bytes"

fun strstr :: "string \<Rightarrow> string \<Rightarrow> bool" where
  "strstr [] needle = (needle = [])"
| "strstr (c # cs) needle = (take (length needle) (c # cs) = needle \<or> strstr cs needle)"

fun digits_value :: "int \<Rightarrow> string \<Rightarrow> int" where
  "digits_value acc [] = acc"
| "digits_value acc (c # cs) =
     (if isdigit_c c then digits_value (acc * 10 + (of_char c - 48)) cs else acc)"

definition atoi :: "string \<Rightarrow> int option" where
  "atoi str =
     (let t = dropWhile isspace_c str;
          v = (case t of
                 [] \<Rightarrow> 0
               | c # cs \<Rightarrow>
                   if c = CHR ''-'' then - digits_value 0 cs
                   else if c = CHR ''+'' then digits_value 0 cs
                   else digits_value 0 t)
      in if INT_MIN \<le> v \<and> v \<le> INT_MAX then Some v else None)"

definition digit_char :: "nat \<Rightarrow> char" where
  "digit_char d = ''0123456789'' ! d"

fun show_nat :: "nat \<Rightarrow> string" where
  "show_nat n = (if n < 10 then [digit_char n] else show_nat (n div 10) @ [digit_char (n mod 10)])"

declare show_nat.simps [simp del]

definition show_int :: "int \<Rightarrow> string" where
  "show_int i = (if i < 0 then CHR ''-'' # show_nat (nat (- i)) else show_nat (nat i))"

text \<open>
  \<^verbatim>\<open>fgets(line, n + 1, file)\<close> on the unread bytes of a file: the bytes stored into
  \<^verbatim>\<open>line\<close> (at most \<open>n\<close>, ending after the first newline) and the bytes left unread.
\<close>

fun fgets :: "nat \<Rightarrow> string \<Rightarrow> string \<times> string" where
  "fgets n [] = ([], [])"
| "fgets n (c # cs) =
     (if n = 0 then ([], c # cs)
      else if c = LF then ([c], cs)
      else (let (l, r) = fgets (n - 1) cs in (c # l, r)))"

section \<open>Persistence (cms.c, loadDB, openDB, saveDB, restoreDB)\<close>

text \<open>The line as the loop body sees it after \<^verbatim>\<open>line[strcspn(line, "\r\n")] = 0\<close>.\<close>

definition strip_line :: "string \<Rightarrow> string" where
  "strip_line chunk = takeWhile (\<lambda>c. c \<noteq> CR \<and> c \<noteq> LF) (c_str chunk)"

definition column_header :: string where
  "column_header = ''ID'' @ [TAB] @ ''Name'' @ [TAB] @ ''Programme'' @ [TAB] @ ''Mark''"

definition skip_line :: "string \<Rightarrow> bool" where
  "skip_line line =
     (strstr line ''Database Name: P4_1-CMS'' \<or> strstr line ''Authors: P4-1'' \<or>
      strstr line ''Table Name: StudentRecords'' \<or> strstr line column_header \<or>
      length line = 0)"

text \<open>
  The loop that fills \<^verbatim>\<open>fields[0..3]\<close>: each field ends at the next TAB; after the
  last TAB of the line the remaining fields are empty.
\<close>

fun split_fields :: "nat \<Rightarrow> string \<Rightarrow> string list" where
  "split_fields 0 ptr = []"
| "split_fields (Suc k) ptr =
     takeWhile (\<lambda>c. c \<noteq> TAB) ptr #
     split_fields k (case dropWhile (\<lambda>c. c \<noteq> TAB) ptr of [] \<Rightarrow> [] | _ # rest \<Rightarrow> rest)"

definition parse_record :: "(string \<Rightarrow> rat) \<Rightarrow> string \<Rightarrow> StudentRecord option" where
  "parse_record atof line =
     (case split_fields (Suc (Suc (Suc (Suc 0)))) line of
        [f0, f1, f2, f3] \<Rightarrow> do {
          i \<leftarrow> (if f0 \<noteq> [] then atoi f0 else Some 0);
          Some \<lparr>id_num = i, name = f1, programme = f2, mark = (if f3 \<noteq> [] then atof f3 else 0)\<rparr> }
      | _ \<Rightarrow> None)"

lemma fgets_shorter: "length (snd (fgets n cs)) \<le> length cs"
  by (induction n cs rule: fgets.induct) (auto split: prod.splits)

lemma fgets_progress: "0 < n \<Longrightarrow> cs \<noteq> [] \<Longrightarrow> length (snd (fgets n cs)) < length cs"
proof (cases cs)
  case Nil
  assume "cs \<noteq> []"
  with Nil show ?thesis by simp
next
  case (Cons c rest)
  assume "0 < n"
  have "length (snd (fgets (n - 1) rest)) \<le> length rest"
    by (rule fgets_shorter)
  with Cons \<open>0 < n\<close> show ?thesis
    by (auto split: prod.splits)
qed

function load_loop :: "(string \<Rightarrow> rat) \<Rightarrow> string \<Rightarrow> cms \<Rightarrow> cms option" where
  "load_loop atof unread s =
     (if unread = [] then Some s
      else
        let line = strip_line (fst (fgets (MAX_LINE - 1) unread));
            rest = snd (fgets (MAX_LINE - 1) unread)
        in if skip_line line then load_loop atof rest s
           else do {
             r \<leftarrow> parse_record atof line;
             s' \<leftarrow> append_node r s;
             load_loop atof rest s' })"
  by pat_completeness auto
termination
  by (relation "measure (\<lambda>(atof, unread, s). length unread)")
     (auto simp: MAX_LINE_def intro!: fgets_progress)

declare load_loop.simps [simp del]

definition loadDB :: "(string \<Rightarrow> rat) \<Rightarrow> string \<Rightarrow> cms \<Rightarrow> cms option" where
  "loadDB atof filename s =
     do {
       s1 \<leftarrow> freeDB s;
       let s2 = s1\<lparr>hashTable := (\<lambda>_. None)\<rparr>;
       case files s2 filename of
         None \<Rightarrow> Some ((say (CouldNotOpen filename) s2)\<lparr>dbLoaded := False\<rparr>)
       | Some bytes \<Rightarrow> do {
           s3 \<leftarrow> load_loop atof bytes s2;
           Some (say SuccessfullyOpened (s3\<lparr>dbLoaded := True\<rparr>)) } }"

definition openDB :: "(string \<Rightarrow> rat) \<Rightarrow> cms \<Rightarrow> cms option" where
  "openDB atof s =
     (if dbLoaded s then Some (say AlreadyOpened s) else loadDB atof primary_path s)"

definition file_header :: string where
  "file_header =
     ''Database Name: P4_1-CMS'' @ [LF] @ ''Authors: P4-1'' @ [LF, LF] @
     ''Table Name: StudentRecords'' @ [LF] @ column_header @ [LF]"

text \<open>\<^verbatim>\<open>snprintf(line, sizeof(line), "%d\t%s\t%s\t%.1f\n", ...)\<close> keeps at most 255 bytes.\<close>

definition format_line :: "(rat \<Rightarrow> string) \<Rightarrow> StudentRecord \<Rightarrow> string" where
  "format_line fmt1 r =
     take (MAX_LINE - 1)
       (show_int (id_num r) @ [TAB] @ name r @ [TAB] @ programme r @ [TAB] @ fmt1 (mark r) @ [LF])"

partial_function (option) save_loop ::
  "(rat \<Rightarrow> string) \<Rightarrow> heap \<Rightarrow> addr option \<Rightarrow> string \<Rightarrow> string option" where
  "save_loop fmt1 h current memContent =
     (case current of
        None \<Rightarrow> Some memContent
      | Some a \<Rightarrow>
          (case h a of
             None \<Rightarrow> None
           | Some n \<Rightarrow> save_loop fmt1 h (nextp n) (memContent @ format_line fmt1 (data n))))"

declare save_loop.simps [code]

text \<open>
  \<^verbatim>\<open>fileContent\<close> stays \<^verbatim>\<open>NULL\<close> when the primary file cannot be opened or has no
  bytes; \<^verbatim>\<open>strcmp\<close> and \<^verbatim>\<open>fputs\<close> read it up to its first NUL byte. Opening the
  backup for writing empties it even when nothing is written to it afterwards.
\<close>

definition saveDB :: "(rat \<Rightarrow> string) \<Rightarrow> cms \<Rightarrow> cms option" where
  "saveDB fmt1 s =
     (if \<not> dbLoaded s then Some (say NothingToSave s)
      else do {
        let fileContent =
              (case files s primary_path of
                 None \<Rightarrow> None
               | Some bytes \<Rightarrow> if bytes = [] then None else Some bytes);
        memContent \<leftarrow> save_loop fmt1 (heap s) (head s) file_header;
        if (case fileContent of None \<Rightarrow> False | Some fc \<Rightarrow> c_str fc = memContent)
        then Some (say NoChanges s)
        else do {
          let s1 = (if writable s backup_path
                    then s\<lparr>files := (files s)(backup_path \<mapsto>
                             (case fileContent of None \<Rightarrow> [] | Some fc \<Rightarrow> c_str fc))\<rparr>
                    else s);
          if \<not> writable s1 primary_path then Some (say ErrorSaving s1)
          else Some (say Saved (s1\<lparr>files := (files s1)(primary_path \<mapsto> memContent),
                                     dbModified := False\<rparr>)) } })"

definition restoreDB :: "(string \<Rightarrow> rat) \<Rightarrow> bool \<Rightarrow> cms \<Rightarrow> cms option" where
  "restoreDB atof isUndoRedo s =
     (case files s backup_path of
        None \<Rightarrow> Some (say BackupMissing s)
      | Some _ \<Rightarrow> do {
          let s1 = (if \<not> isUndoRedo then pushUndo RESTORE_OP s else s);
          s2 \<leftarrow> loadDB atof backup_path s1;
          let s3 = (if \<not> isUndoRedo then say Restored s2 else s2);
          Some (s3\<lparr>dbModified := True\<rparr>) })"

section \<open>Undo and redo (cms.c, undo, redo)\<close>

definition undo :: "(string \<Rightarrow> rat) \<Rightarrow> cms \<Rightarrow> cms option" where
  "undo atof s =
     (case undoStack s of
        [] \<Rightarrow> Some (say NothingToUndo s)
      | action # below \<Rightarrow> do {
          let s0 = s\<lparr>undoStack := below\<rparr>;
          s1 \<leftarrow> (case action of
                  INSERT_OP new \<Rightarrow> do {
                    (_, t) \<leftarrow> deleteDB (id_num new) True True s0;
                    Some (say (UndidInsert (id_num new)) t) }
                | UPDATE_OP old new \<Rightarrow> do {
                    t \<leftarrow> updateDB (id_num old) (name old) (programme old) (mark old) True s0;
                    Some (say (UndidUpdate (id_num new)) t) }
                | DELETE_OP old \<Rightarrow> do {
                    t \<leftarrow> insertDB (id_num old) (name old) (programme old) (mark old) True s0;
                    Some (say (UndidDelete (id_num old)) t) }
                | RESTORE_OP \<Rightarrow> do {
                    t \<leftarrow> loadDB atof primary_path s0;
                    Some (say UndidRestore t) });
          Some (s1\<lparr>redoStack := action # redoStack s1\<rparr>) })"

definition redo :: "(string \<Rightarrow> rat) \<Rightarrow> cms \<Rightarrow> cms option" where
  "redo atof s =
     (case redoStack s of
        [] \<Rightarrow> Some (say NothingToRedo s)
      | action # below \<Rightarrow> do {
          let s0 = s\<lparr>redoStack := below\<rparr>;
          s1 \<leftarrow> (case action of
                  INSERT_OP new \<Rightarrow> do {
                    t \<leftarrow> insertDB (id_num new) (name new) (programme new) (mark new) True s0;
                    Some (say (RedidInsert (id_num new)) t) }
                | UPDATE_OP old new \<Rightarrow> do {
                    t \<leftarrow> updateDB (id_num new) (name new) (programme new) (mark new) True s0;
                    Some (say (RedidUpdate (id_num new)) t) }
                | DELETE_OP old \<Rightarrow> do {
                    (_, t) \<leftarrow> deleteDB (id_num old) True True s0;
                    Some (say (RedidDelete (id_num old)) t) }
                | RESTORE_OP \<Rightarrow> do {
                    t \<leftarrow> restoreDB atof True s0;
                    Some (say RedidRestore t) });
          Some (s1\<lparr>undoStack := action # undoStack s1\<rparr>) })"

section \<open>Sorted view (cms.c, mergeSorted, mergeSort, showDBSorted)\<close>

text \<open>
  \<^verbatim>\<open>showDBSorted\<close> sorts the private copy made by \<^verbatim>\<open>cloneList\<close>, so the sort is a
  function on lists. The comparison by id is the \<^verbatim>\<open>int\<close> subtraction of the code.
\<close>

definition compare_records :: "bool \<Rightarrow> StudentRecord \<Rightarrow> StudentRecord \<Rightarrow> int option" where
  "compare_records sortByID a b =
     (if sortByID
      then (let d = id_num a - id_num b in if INT_MIN \<le> d \<and> d \<le> INT_MAX then Some d else None)
      else Some (if mark a > mark b then 1 else if mark a < mark b then - 1 else 0))"

fun mergeSorted ::
  "StudentRecord list \<Rightarrow> StudentRecord list \<Rightarrow> bool \<Rightarrow> bool \<Rightarrow> StudentRecord list option" where
  "mergeSorted [] list2 sortByID ascending = Some list2"
| "mergeSorted (x # xs) [] sortByID ascending = Some (x # xs)"
| "mergeSorted (x # xs) (y # ys) sortByID ascending =
     do {
       compare \<leftarrow> compare_records sortByID x y;
       if (ascending \<and> compare \<le> 0) \<or> (\<not> ascending \<and> compare > 0)
       then do { rest \<leftarrow> mergeSorted xs (y # ys) sortByID ascending; Some (x # rest) }
       else do { rest \<leftarrow> mergeSorted (x # xs) ys sortByID ascending; Some (y # rest) } }"

text \<open>
  The slow and fast pointers of \<^verbatim>\<open>mergeSort\<close>: the first argument is the list from
  \<^verbatim>\<open>slow\<close> on, the second the list from \<^verbatim>\<open>fast\<close> on; the result is the part up to
  \<^verbatim>\<open>slow\<close> and the list from \<^verbatim>\<open>middle\<close> on.
\<close>

fun split_middle :: "'a list \<Rightarrow> 'a list \<Rightarrow> 'a list \<times> 'a list" where
  "split_middle [] fast = ([], [])"
| "split_middle (s # rest) (f1 # f2 # fast) = (let (l, m) = split_middle rest fast in (s # l, m))"
| "split_middle (s # rest) fast = ([s], rest)"

function mergeSort :: "StudentRecord list \<Rightarrow> bool \<Rightarrow> bool \<Rightarrow> StudentRecord list option" where
  "mergeSort nodes sortByID ascending =
     (case nodes of
        [] \<Rightarrow> Some []
      | [x] \<Rightarrow> Some [x]
      | x # y # rest \<Rightarrow> do {
          leftSorted \<leftarrow> mergeSort (fst (split_middle nodes (y # rest))) sortByID ascending;
          rightSorted \<leftarrow> mergeSort (snd (split_middle nodes (y # rest))) sortByID ascending;
          mergeSorted leftSorted rightSorted sortByID ascending })"
  by pat_completeness auto
termination
proof -
  have halves: "length (fst (split_middle xs fast)) + length (snd (split_middle xs fast)) = length xs
      \<and> fst (split_middle xs fast) \<noteq> [] \<and> snd (split_middle xs fast) \<noteq> []"
    if "length fast + 3 \<le> 2 * length xs" for xs fast :: "StudentRecord list"
    using that
    by (induction xs fast rule: split_middle.induct) (fastforce split: prod.splits)+
  have left: "length (fst (split_middle (x # y # rest) (y # rest))) < length (x # y # rest)"
    for x y :: StudentRecord and rest
    using halves [of "y # rest" "x # y # rest"] by (cases "snd (split_middle (x # y # rest) (y # rest))") auto
  have right: "length (snd (split_middle (x # y # rest) (y # rest))) < length (x # y # rest)"
    for x y :: StudentRecord and rest
    using halves [of "y # rest" "x # y # rest"] by (cases "fst (split_middle (x # y # rest) (y # rest))") auto
  show ?thesis
    by (relation "measure (\<lambda>(nodes, sortByID, ascending). length nodes)")
       (use left right in \<open>auto simp del: split_middle.simps\<close>)
qed

declare mergeSort.simps [simp del]

definition showDBSorted :: "bool \<Rightarrow> bool \<Rightarrow> cms \<Rightarrow> cms option" where
  "showDBSorted sortByID ascending s =
     (case head s of
        None \<Rightarrow> Some (say NoRecordsToDisplay s)
      | Some _ \<Rightarrow> do {
          tempList \<leftarrow> cloneList (heap s) (head s);
          sortedHead \<leftarrow> mergeSort tempList sortByID ascending;
          Some (say (SortedListing sortByID ascending sortedHead) s) })"

section \<open>Command parsing (input_validation.c) and dispatch (main.c)\<close>

definition toupper_c :: "char \<Rightarrow> char" where
  "toupper_c c =
     (if (97::nat) \<le> of_char c \<and> of_char c \<le> (122::nat) then char_of (of_char c - (32::nat)) else c)"

definition tolower_c :: "char \<Rightarrow> char" where
  "tolower_c c =
     (if (65::nat) \<le> of_char c \<and> of_char c \<le> (90::nat) then char_of (of_char c + (32::nat)) else c)"

text \<open>
  \<^verbatim>\<open>validateCommand\<close>: the text behind the command word and the blanks after it, or
  \<open>None\<close> for \<^verbatim>\<open>NULL\<close>.
\<close>

definition validateCommand :: "string \<Rightarrow> string \<Rightarrow> string option" where
  "validateCommand input cmd =
     (let ptr = dropWhile isspace_c input; len = length cmd in
      if map tolower_c (take len ptr) \<noteq> map tolower_c cmd then None
      else (case drop len ptr of
              [] \<Rightarrow> Some []
            | c # cs \<Rightarrow> if \<not> isspace_c c then None else Some (dropWhile isspace_c (c # cs))))"

definition validateID :: "string \<Rightarrow> bool" where
  "validateID id_str =
     (length id_str = 7 \<and> (case id_str of [] \<Rightarrow> False | c # _ \<Rightarrow> c = CHR ''2'') \<and> list_all isdigit_c id_str)"

fun toTitleCase_from :: "bool \<Rightarrow> string \<Rightarrow> string" where
  "toTitleCase_from capitalizeNext [] = []"
| "toTitleCase_from capitalizeNext (c # cs) =
     (if isspace_c c then c # toTitleCase_from True cs
      else if capitalizeNext then toupper_c c # toTitleCase_from False cs
      else tolower_c c # toTitleCase_from False cs)"

definition toTitleCase :: "string \<Rightarrow> string" where
  "toTitleCase str = toTitleCase_from True str"

text \<open>The loop of \<^verbatim>\<open>validateMark\<close> behind the optional sign: \<open>None\<close> is \<^verbatim>\<open>return 0\<close>.\<close>

fun validateMark_loop :: "nat \<Rightarrow> bool \<Rightarrow> string \<Rightarrow> bool option" where
  "validateMark_loop dotCount digitFound [] = Some digitFound"
| "validateMark_loop dotCount digitFound (c # cs) =
     (if isdigit_c c then validateMark_loop dotCount True cs
      else if c = CHR ''.'' then
        (if dotCount + 1 > 1 then None else validateMark_loop (dotCount + 1) digitFound cs)
      else None)"

definition validateMark :: "string \<Rightarrow> bool" where
  "validateMark str =
     (case str of
        [] \<Rightarrow> True
      | c # cs \<Rightarrow>
          (case validateMark_loop 0 False (if c = CHR ''+'' \<or> c = CHR ''-'' then cs else c # cs) of
             None \<Rightarrow> False
           | Some digitFound \<Rightarrow> digitFound))"

definition OPTIONAL_NONE :: nat where "OPTIONAL_NONE = 0"
definition OPTIONAL_REQUIRED :: nat where "OPTIONAL_REQUIRED = 1"
definition OPTIONAL_ALLOWED_EMPTY :: nat where "OPTIONAL_ALLOWED_EMPTY = 2"

datatype parse_error =
    UnknownField | DuplicateField | MissingEquals | SpaceBeforeEquals | OnlyIdAllowed
  | MissingId | InvalidId | NameTooLong | ProgrammeTooLong | MarkNotNumeric | MarkOutOfRange
  | NothingToUpdate | NoBuffer

text \<open>
  The test that \<^verbatim>\<open>parseCommand\<close> makes for each key at \<^verbatim>\<open>ptr\<close>:
  \<^verbatim>\<open>strncasecmp(ptr, key, len) == 0\<close> and the byte behind is \<^verbatim>\<open>=\<close> or a blank.
\<close>

definition key_at :: "string \<Rightarrow> string \<Rightarrow> bool" where
  "key_at key ptr =
     (map toupper_c (take (length key) ptr) = key \<and>
      (case drop (length key) ptr of [] \<Rightarrow> False | after # _ \<Rightarrow> after = CHR ''='' \<or> isspace_c after))"

definition keys :: "string list" where
  "keys = [''ID'', ''NAME'', ''PROGRAMME'', ''MARK'']"

definition field_index :: "string \<Rightarrow> nat option" where
  "field_index ptr =
     (if key_at (keys ! 0) ptr then Some 0
      else if key_at (keys ! 1) ptr then Some 1
      else if key_at (keys ! 2) ptr then Some 2
      else if key_at (keys ! 3) ptr then Some 3
      else None)"

text \<open>The value runs up to the next place where a key starts: the value and the rest.\<close>

fun scan_value :: "string \<Rightarrow> string \<times> string" where
  "scan_value [] = ([], [])"
| "scan_value (c # cs) =
     (if field_index (c # cs) \<noteq> None then ([], c # cs)
      else (let (v, r) = scan_value cs in (c # v, r)))"

record parsed =
  p_id :: int
  p_name :: string
  p_programme :: string
  p_mark :: rat
  p_found :: "bool list"
  p_optionalProvided :: bool

text \<open>The \<^verbatim>\<open>switch (fieldIndex)\<close>, with \<open>len\<close> the length of the trimmed value.\<close>

definition store_field ::
  "(string \<Rightarrow> rat) \<Rightarrow> bool \<Rightarrow> nat \<Rightarrow> nat \<Rightarrow> string \<Rightarrow> parsed \<Rightarrow> parse_error + parsed" where
  "store_field atof buffers fieldIndex len val st =
     (if fieldIndex = 0 then
        (if len = 0 then Inl MissingId
         else if \<not> validateID val then Inl InvalidId
         else (case atoi val of None \<Rightarrow> Inl InvalidId | Some i \<Rightarrow> Inr (st\<lparr>p_id := i\<rparr>)))
      else if \<not> buffers then Inl NoBuffer
      else if fieldIndex = 1 then
        (if len > 0 then
           (if len \<ge> MAX_NAME then Inl NameTooLong
            else Inr (st\<lparr>p_name := toTitleCase (take (MAX_NAME - 1) val), p_optionalProvided := True\<rparr>))
         else Inr st)
      else if fieldIndex = 2 then
        (if len > 0 then
           (if len \<ge> MAX_PROGRAMME then Inl ProgrammeTooLong
            else Inr (st\<lparr>p_programme := toTitleCase (take (MAX_PROGRAMME - 1) val),
                          p_optionalProvided := True\<rparr>))
         else Inr st)
      else
        (if len > 0 then
           (if \<not> validateMark val then Inl MarkNotNumeric
            else (let tempMark = atof val in
                  if tempMark < 0 \<or> tempMark > 100 then Inl MarkOutOfRange
                  else Inr (st\<lparr>p_mark := tempMark, p_optionalProvided := True\<rparr>)))
         else Inr st))"

function parse_loop ::
  "(string \<Rightarrow> rat) \<Rightarrow> bool \<Rightarrow> nat \<Rightarrow> string \<Rightarrow> parsed \<Rightarrow> parse_error + parsed" where
  "parse_loop atof buffers optionalMode ptr st =
     (if ptr = [] then Inr st
      else
        (case field_index ptr of
           None \<Rightarrow> Inl UnknownField
         | Some fieldIndex \<Rightarrow>
             if p_found st ! fieldIndex then Inl DuplicateField
             else
               (case dropWhile isspace_c (drop (length (keys ! fieldIndex)) ptr) of
                  [] \<Rightarrow> Inl MissingEquals
                | e # behind \<Rightarrow>
                    if e \<noteq> CHR ''='' then Inl MissingEquals
                    else if takeWhile isspace_c (drop (length (keys ! fieldIndex)) ptr) \<noteq> []
                    then Inl SpaceBeforeEquals
                    else
                      (let valueStart = dropWhile isspace_c behind;
                           full = rev (dropWhile isspace_c (rev (fst (scan_value valueStart))));
                           val = take (MAX_LINE - 1) full
                       in if optionalMode = OPTIONAL_NONE \<and> fieldIndex \<noteq> 0 then Inl OnlyIdAllowed
                          else
                            (case store_field atof buffers fieldIndex (length full) val
                                    (st\<lparr>p_found := (p_found st)[fieldIndex := True]\<rparr>) of
                               Inl err \<Rightarrow> Inl err
                             | Inr st' \<Rightarrow>
                                 parse_loop atof buffers optionalMode
                                   (dropWhile isspace_c (snd (scan_value valueStart))) st')))))"
  by pat_completeness auto
termination
proof -
  have scan: "length (snd (scan_value xs)) \<le> length xs" for xs
    by (induction xs) (auto split: prod.splits)
  have skip: "length (dropWhile isspace_c xs) \<le> length xs" for xs
    by (induction xs) auto
  have shorter: "length (dropWhile isspace_c (snd (scan_value (dropWhile isspace_c behind)))) < length ptr"
    if "dropWhile isspace_c (drop k ptr) = e # behind" for k ptr e behind
  proof -
    have "length (dropWhile isspace_c (snd (scan_value (dropWhile isspace_c behind)))) \<le> length behind"
      using skip [of "snd (scan_value (dropWhile isspace_c behind))"]
        scan [of "dropWhile isspace_c behind"] skip [of behind]
      by linarith
    moreover have "length (e # behind) \<le> length ptr"
      using skip [of "drop k ptr"] that by simp
    ultimately show ?thesis by simp
  qed
  show ?thesis
    by (relation "measure (\<lambda>(atof, buffers, optionalMode, ptr, st). length ptr)")
       (auto intro: shorter)
qed

declare parse_loop.simps [simp del]

definition parseCommand ::
  "(string \<Rightarrow> rat) \<Rightarrow> string \<Rightarrow> bool \<Rightarrow> nat \<Rightarrow> parse_error + (int \<times> string \<times> string \<times> rat)" where
  "parseCommand atof input buffers optionalMode =
     (case parse_loop atof buffers optionalMode input
             \<lparr>p_id = - 1, p_name = [], p_programme = [], p_mark = 0,
              p_found = [False, False, False, False], p_optionalProvided = False\<rparr> of
        Inl err \<Rightarrow> Inl err
      | Inr st \<Rightarrow>
          if p_id st = - 1 then Inl MissingId
          else if optionalMode = OPTIONAL_REQUIRED \<and> \<not> p_optionalProvided st then Inl NothingToUpdate
          else Inr (p_id st, p_name st, p_programme st, p_mark st))"

text \<open>
  The branches of the loop of \<^verbatim>\<open>main\<close> for one line of input that starts with
  \<^verbatim>\<open>INSERT\<close> or \<^verbatim>\<open>UPDATE\<close>. A parse error prints its message and changes nothing.
\<close>

definition main_INSERT :: "(string \<Rightarrow> rat) \<Rightarrow> string \<Rightarrow> cms \<Rightarrow> cms option" where
  "main_INSERT atof input s =
     (case validateCommand input ''INSERT'' of
        None \<Rightarrow> Some (say (InvalidCommand input) s)
      | Some valid \<Rightarrow>
          if \<not> dbLoaded s then Some (say NoRecordsLoaded s)
          else (case parseCommand atof valid True OPTIONAL_ALLOWED_EMPTY of
                  Inl err \<Rightarrow> Some (say (InvalidCommand input) s)
                | Inr (newID, newName, newProgramme, newMark) \<Rightarrow>
                    insertDB newID newName newProgramme newMark False s))"

definition main_UPDATE :: "(string \<Rightarrow> rat) \<Rightarrow> string \<Rightarrow> cms \<Rightarrow> cms option" where
  "main_UPDATE atof input s =
     (case validateCommand input ''UPDATE'' of
        None \<Rightarrow> Some (say (InvalidCommand input) s)
      | Some valid \<Rightarrow>
          if \<not> dbLoaded s then Some (say NoRecordsLoaded s)
          else (case parseCommand atof valid True OPTIONAL_REQUIRED of
                  Inl err \<Rightarrow> Some (say (InvalidCommand input) s)
                | Inr (newID, newName, newProgramme, newMark) \<Rightarrow>
                    updateDB newID newName newProgramme newMark False s))"

text \<open>
  The store operations that \<^verbatim>\<open>main\<close> calls for a parsed \<^verbatim>\<open>INSERT\<close>, \<^verbatim>\<open>UPDATE\<close>,
  \<^verbatim>\<open>DELETE\<close> (after the user has confirmed it with \<^verbatim>\<open>Y\<close>), \<^verbatim>\<open>UNDO\<close> and \<^verbatim>\<open>REDO\<close>,
  and a session as the list of its commands.
\<close>

datatype command =
    INSERT int string string rat
  | UPDATE int string string rat
  | DELETE int
  | UNDO
  | REDO

fun exec :: "(string \<Rightarrow> rat) \<Rightarrow> command \<Rightarrow> cms \<Rightarrow> cms option" where
  "exec atof (INSERT newID newName newProgramme newMark) s =
     insertDB newID newName newProgramme newMark False s"
| "exec atof (UPDATE newID newName newProgramme newMark) s =
     updateDB newID newName newProgramme newMark False s"
| "exec atof (DELETE deleteID) s = map_option snd (deleteDB deleteID True False s)"
| "exec atof UNDO s = undo atof s"
| "exec atof REDO s = redo atof s"

fun run :: "(string \<Rightarrow> rat) \<Rightarrow> command list \<Rightarrow> cms \<Rightarrow> cms option" where
  "run atof [] s = Some s"
| "run atof (c # cs) s = exec atof c s \<bind> run atof cs"

section \<open>Decimal conversions for the examples\<close>

text \<open>
  The examples below need values for the two floating-point conversions. These read and
  print decimal notation exactly: \<open>atof_dec\<close> takes blanks, a sign, digits and a
  fraction; \<open>fmt1_dec\<close> prints the nearest number with one fractional digit (ties to
  even), as \<^verbatim>\<open>"%.1f"\<close> does for the exact value of a float. They agree with the C
  library on the marks the examples use.
\<close>

fun fraction_value :: "rat \<Rightarrow> rat \<Rightarrow> string \<Rightarrow> rat" where
  "fraction_value acc scale [] = acc"
| "fraction_value acc scale (c # cs) =
     (if isdigit_c c then fraction_value (acc + scale * of_nat (of_char c - 48)) (scale / 10) cs
      else acc)"

definition decimal_value :: "string \<Rightarrow> rat" where
  "decimal_value str =
     of_int (digits_value 0 (takeWhile isdigit_c str)) +
     (case dropWhile isdigit_c str of
        [] \<Rightarrow> 0
      | c # cs \<Rightarrow> if c = CHR ''.'' then fraction_value 0 (1 / 10) cs else 0)"

definition atof_dec :: "string \<Rightarrow> rat" where
  "atof_dec str =
     (case dropWhile isspace_c str of
        [] \<Rightarrow> 0
      | c # cs \<Rightarrow>
          if c = CHR ''-'' then - decimal_value cs
          else if c = CHR ''+'' then decimal_value cs
          else decimal_value (c # cs))"

definition round_half_even :: "rat \<Rightarrow> int" where
  "round_half_even q =
     (let f = \<lfloor>q\<rfloor>; d = q - of_int f in
      if d < 1 / 2 then f else if d > 1 / 2 then f + 1 else if even f then f else f + 1)"

definition fmt1_dec :: "rat \<Rightarrow> string" where
  "fmt1_dec m =
     (let t = nat (round_half_even (\<bar>m\<bar> * 10)) in
      (if m < 0 then [CHR ''-''] else []) @ show_nat (t div 10) @ [CHR ''.''] @ show_nat (t mod 10))"

section \<open>The record sequence, as the heap holds it\<close>

text \<open>
  \<open>chain h p as\<close>: following \<^verbatim>\<open>next\<close> from the pointer \<open>p\<close> visits exactly the nodes
  at the addresses \<open>as\<close>, all allocated, and ends at \<^verbatim>\<open>NULL\<close>.
\<close>

primrec chain :: "heap \<Rightarrow> addr option \<Rightarrow> addr list \<Rightarrow> bool" where
  "chain h p [] = (p = None)"
| "chain h p (a # as) =
     (p = Some a \<and> (case h a of None \<Rightarrow> False | Some n \<Rightarrow> chain h (nextp n) as))"

definition id_at :: "heap \<Rightarrow> addr \<Rightarrow> int" where
  "id_at h a = id_num (data (the (h a)))"

definition recs_of :: "heap \<Rightarrow> addr list \<Rightarrow> StudentRecord list" where
  "recs_of h as = map (\<lambda>a. data (the (h a))) as"

text \<open>
  A well-formed store: \<^verbatim>\<open>head\<close> starts the list of the nodes \<open>as\<close>, \<^verbatim>\<open>tail\<close> is its
  last node, no other node is allocated, and \<^verbatim>\<open>malloc\<close> has handed out every address
  in use.
\<close>

definition wf :: "cms \<Rightarrow> addr list \<Rightarrow> bool" where
  "wf s as =
     (chain (heap s) (head s) as \<and> (as \<noteq> [] \<longrightarrow> tail s = Some (last as)) \<and>
      (\<forall>a. heap s a \<noteq> None \<longrightarrow> a \<in> set as) \<and> (\<forall>a\<in>set as. a < fresh s))"

definition well_formed :: "cms \<Rightarrow> bool" where
  "well_formed s = (\<exists>as. wf s as)"

definition history :: "cms \<Rightarrow> Action list \<times> Action list" where
  "history s = (undoStack s, redoStack s)"

definition frame :: "cms \<Rightarrow> bool \<times> (string \<Rightarrow> string option) \<times> (string \<Rightarrow> bool)" where
  "frame s = (dbLoaded s, files s, writable s)"

text \<open>
  The index answers coherently for an id when \<^verbatim>\<open>findNode\<close> returns, and returns what
  the search of \<^verbatim>\<open>deleteDB\<close> from \<^verbatim>\<open>head\<close> finds: the first node of the list with
  that id, or \<^verbatim>\<open>NULL\<close>.
\<close>

definition coherent_at :: "cms \<Rightarrow> int \<Rightarrow> bool" where
  "coherent_at s i =
     (case findNode s i of
        None \<Rightarrow> False
      | Some found \<Rightarrow> findNode_loop (heap s) (head s) i = Some found)"

definition sound :: "cms \<Rightarrow> StudentRecord list \<Rightarrow> bool" where
  "sound s rs = (\<exists>as. wf s as \<and> recs_of (heap s) as = rs)"

text \<open>The three conditional assignments of \<^verbatim>\<open>updateDB\<close>, on the record.\<close>

definition patched :: "string \<Rightarrow> string \<Rightarrow> rat \<Rightarrow> StudentRecord \<Rightarrow> StudentRecord" where
  "patched nm prog mk old =
     (let r1 = (if nm \<noteq> [] then old\<lparr>name := nm\<rparr> else old);
          r2 = (if prog \<noteq> [] then r1\<lparr>programme := prog\<rparr> else r1)
      in if 0 \<le> mk then r2\<lparr>mark := mk\<rparr> else r2)"

text \<open>
  A run is coherent when every command returns, every lookup by id that a command makes
  is answered coherently, and every mutation takes effect: an insert finds its id
  absent, an update and a delete find it present.
\<close>

fun lookup_ok :: "command \<Rightarrow> cms \<Rightarrow> bool" where
  "lookup_ok (INSERT i nm prog mk) s = (coherent_at s i \<and> findNode s i = Some None)"
| "lookup_ok (UPDATE i nm prog mk) s = (coherent_at s i \<and> findNode s i \<noteq> Some None)"
| "lookup_ok (DELETE i) s = (coherent_at s i \<and> findNode s i \<noteq> Some None)"
| "lookup_ok UNDO s =
     (case undoStack s of
        [] \<Rightarrow> True
      | INSERT_OP new # _ \<Rightarrow> coherent_at s (id_num new)
      | UPDATE_OP old new # _ \<Rightarrow> coherent_at s (id_num old)
      | DELETE_OP old # _ \<Rightarrow> coherent_at s (id_num old)
      | RESTORE_OP # _ \<Rightarrow> True)"
| "lookup_ok REDO s =
     (case redoStack s of
        [] \<Rightarrow> True
      | INSERT_OP new # _ \<Rightarrow> coherent_at s (id_num new)
      | UPDATE_OP old new # _ \<Rightarrow> coherent_at s (id_num new)
      | DELETE_OP old # _ \<Rightarrow> coherent_at s (id_num old)
      | RESTORE_OP # _ \<Rightarrow> True)"

fun coherent_run :: "(string \<Rightarrow> rat) \<Rightarrow> command list \<Rightarrow> cms \<Rightarrow> bool" where
  "coherent_run atof [] s = True"
| "coherent_run atof (c # cs) s =
     (lookup_ok c s \<and>
      (case exec atof c s of None \<Rightarrow> False | Some s' \<Rightarrow> coherent_run atof cs s'))"

text \<open>
  A record that an undone update can bring back: \<^verbatim>\<open>updateDB\<close> skips an empty name, an
  empty programme and a negative mark. A user mutation: no undo or redo, and an inserted
  record is of that kind.
\<close>

definition restorable :: "StudentRecord \<Rightarrow> bool" where
  "restorable r = (name r \<noteq> [] \<and> programme r \<noteq> [] \<and> 0 \<le> mark r)"

fun mutation :: "command \<Rightarrow> bool" where
  "mutation (INSERT i nm prog mk) = (nm \<noteq> [] \<and> prog \<noteq> [] \<and> 0 \<le> mk)"
| "mutation (UPDATE i nm prog mk) = True"
| "mutation (DELETE i) = True"
| "mutation UNDO = False"
| "mutation REDO = False"

fun is_delete :: "command \<Rightarrow> bool" where
  "is_delete (DELETE i) = True"
| "is_delete c = False"

section \<open>The records of a file\<close>

text \<open>
  A record that \<^verbatim>\<open>loadDB\<close> can store: its strings fit the arrays of the struct, and
  the hash of its id is an index of the table.
\<close>

definition loadable :: "StudentRecord \<Rightarrow> bool" where
  "loadable r =
     (length (name r) < MAX_NAME \<and> length (programme r) < MAX_PROGRAMME \<and>
      in_table (hash (id_num r)))"

text \<open>
  The records that the lines of a file denote: the loop of \<^verbatim>\<open>loadDB\<close> without the
  store. \<open>append_all\<close> is what the loop does with them.
\<close>

function file_records :: "(string \<Rightarrow> rat) \<Rightarrow> string \<Rightarrow> StudentRecord list option" where
  "file_records atof unread =
     (if unread = [] then Some []
      else
        let line = strip_line (fst (fgets (MAX_LINE - 1) unread));
            rest = snd (fgets (MAX_LINE - 1) unread)
        in if skip_line line then file_records atof rest
           else do {
             r \<leftarrow> parse_record atof line;
             rs \<leftarrow> file_records atof rest;
             Some (r # rs) })"
  by pat_completeness auto
termination
  by (relation "measure (\<lambda>(atof, unread). length unread)")
     (auto simp: MAX_LINE_def intro!: fgets_progress)

declare file_records.simps [simp del]

fun append_all :: "StudentRecord list \<Rightarrow> cms \<Rightarrow> cms option" where
  "append_all [] s = Some s"
| "append_all (r # rs) s = append_node r s \<bind> append_all rs"

text \<open>
  The action on top of the undo stack is in effect when the records are as the action
  left them: the inserted record is the last, the updated record is in the list with the
  fields the update gave it, the deleted id is absent, and for a restore the backup file
  holds the records of the store.
\<close>

fun in_effect :: "(string \<Rightarrow> rat) \<Rightarrow> Action \<Rightarrow> cms \<Rightarrow> StudentRecord list \<Rightarrow> bool" where
  "in_effect atof (INSERT_OP new) s rs = (rs \<noteq> [] \<and> last rs = new)"
| "in_effect atof (UPDATE_OP old new) s rs =
     (new \<in> set rs \<and> id_num old = id_num new \<and>
      (name new = [] \<longrightarrow> name old = []) \<and> (programme new = [] \<longrightarrow> programme old = []) \<and>
      (mark new < 0 \<longrightarrow> mark old < 0))"
| "in_effect atof (DELETE_OP old) s rs = (id_num old \<notin> id_num ` set rs)"
| "in_effect atof RESTORE_OP s rs =
     (files s backup_path \<noteq> None \<and>
      (case loadDB atof backup_path s of None \<Rightarrow> False | Some t \<Rightarrow> records t = Some rs))"


text \<open>
  Text that fits a field of a line: no TAB, and none of the bytes that end a line or a C
  string. Text that is one line: TAB is allowed.
\<close>

definition plain :: "string \<Rightarrow> bool" where
  "plain str = (\<forall>c\<in>set str. c \<noteq> TAB \<and> c \<noteq> CR \<and> c \<noteq> LF \<and> c \<noteq> NUL)"

definition one_line :: "string \<Rightarrow> bool" where
  "one_line str = (\<forall>c\<in>set str. c \<noteq> CR \<and> c \<noteq> LF \<and> c \<noteq> NUL)"

text \<open>
  The line that \<^verbatim>\<open>saveDB\<close> prints for a record, without its newline and before
  \<^verbatim>\<open>snprintf\<close> cuts it to the buffer.
\<close>

definition record_line :: "(rat \<Rightarrow> string) \<Rightarrow> StudentRecord \<Rightarrow> string" where
  "record_line fmt1 r =
     show_int (id_num r) @ [TAB] @ name r @ [TAB] @ programme r @ [TAB] @ fmt1 (mark r)"

text \<open>
  A record that a save and a load bring back: the id is an \<^verbatim>\<open>int\<close> whose hash is an
  index of the table, the strings fit their arrays and a field, the mark is printed as a
  non-empty field that reads back as the same mark, and the line fits the buffer and is
  not taken for a header line.
\<close>

definition storable :: "(string \<Rightarrow> rat) \<Rightarrow> (rat \<Rightarrow> string) \<Rightarrow> StudentRecord \<Rightarrow> bool" where
  "storable atof fmt1 r =
     (INT_MIN \<le> id_num r \<and> id_num r \<le> INT_MAX \<and> loadable r \<and>
      plain (name r) \<and> plain (programme r) \<and> plain (fmt1 (mark r)) \<and>
      fmt1 (mark r) \<noteq> [] \<and> atof (fmt1 (mark r)) = mark r \<and>
      length (record_line fmt1 r) < MAX_LINE - 1 \<and> \<not> skip_line (record_line fmt1 r))"

text \<open>
  What \<^verbatim>\<open>saveDB\<close> writes for a list of records. A file that \<^verbatim>\<open>saveDB\<close> reads
  completely into its C string: it has no NUL byte.
\<close>

definition saved :: "(rat \<Rightarrow> string) \<Rightarrow> StudentRecord list \<Rightarrow> string" where
  "saved fmt1 rs = file_header @ concat (map (format_line fmt1) rs)"

definition text_file :: "string option \<Rightarrow> bool" where
  "text_file content = (case content of None \<Rightarrow> True | Some bytes \<Rightarrow> NUL \<notin> set bytes)"

section \<open>Example inputs\<close>

text \<open>A primary file that holds the header and no record, and the store after \<^verbatim>\<open>OPEN\<close>.\<close>

definition header_only :: "string \<Rightarrow> string option" where
  "header_only path = (if path = primary_path then Some file_header else None)"

definition empty_db :: cms where
  "empty_db = \<lparr>heap = (\<lambda>_. None), fresh = 0, head = None, tail = None,
     hashTable = (\<lambda>_. None), dbModified = False, dbLoaded = True,
     undoStack = [], redoStack = [], files = header_only, writable = (\<lambda>_. True),
     out = [SuccessfullyOpened]\<rparr>"

definition ann :: StudentRecord where
  "ann = \<lparr>id_num = 2000001, name = ''Ann'', programme = ''Cs'', mark = 50\<rparr>"



text \<open>The opened empty table after \<^verbatim>\<open>INSERT ID=2000001 NAME=Ann PROGRAMME=Cs MARK=50\<close>.\<close>

definition one_record :: cms where
  "one_record = \<lparr>heap = [0 \<mapsto> \<lparr>data = ann, nextp = None, hashNext = None\<rparr>], fresh = 1,
     head = Some 0, tail = Some 0, hashTable = (\<lambda>_. None)(1007 := Some 0),
     dbModified = True, dbLoaded = True, undoStack = [INSERT_OP ann], redoStack = [],
     files = header_only, writable = (\<lambda>_. True),
     out = [SuccessfullyOpened, Inserted 2000001]\<rparr>"

text \<open>The opened empty table after the inserts of Ann, Bob and Cy.\<close>

definition bob :: StudentRecord where
  "bob = \<lparr>id_num = 2000002, name = ''Bob'', programme = ''Cs'', mark = 60\<rparr>"

definition cy :: StudentRecord where
  "cy = \<lparr>id_num = 2000003, name = ''Cy'', programme = ''Ee'', mark = 70\<rparr>"

definition three_records :: cms where
  "three_records = \<lparr>heap = [0 \<mapsto> \<lparr>data = ann, nextp = Some 1, hashNext = None\<rparr>,
                             1 \<mapsto> \<lparr>data = bob, nextp = Some 2, hashNext = None\<rparr>,
                             2 \<mapsto> \<lparr>data = cy, nextp = None, hashNext = None\<rparr>],
     fresh = 3, head = Some 0, tail = Some 2,
     hashTable = (\<lambda>_. None)(1007 := Some 0, 1008 := Some 1, 1009 := Some 2),
     dbModified = True, dbLoaded = True,
     undoStack = [INSERT_OP cy, INSERT_OP bob, INSERT_OP ann], redoStack = [],
     files = header_only, writable = (\<lambda>_. True),
     out = [SuccessfullyOpened, Inserted 2000001, Inserted 2000002, Inserted 2000003]\<rparr>"

text \<open>The record of Ann with the mark 0.625, as \<^verbatim>\<open>INSERT ... MARK=0.625\<close> stores it.\<close>

definition fine_mark :: cms where
  "fine_mark = \<lparr>heap = [0 \<mapsto> \<lparr>data = ann\<lparr>mark := 5 / 8\<rparr>, nextp = None, hashNext = None\<rparr>],
     fresh = 1, head = Some 0, tail = Some 0, hashTable = (\<lambda>_. None)(1007 := Some 0),
     dbModified = True, dbLoaded = True, undoStack = [INSERT_OP (ann\<lparr>mark := 5 / 8\<rparr>)],
     redoStack = [], files = header_only, writable = (\<lambda>_. True),
     out = [SuccessfullyOpened, Inserted 2000001]\<rparr>"

text \<open>A primary file written by hand: the mark of Ann is \<^verbatim>\<open>75\<close>, not \<^verbatim>\<open>75.0\<close>.\<close>

definition hand_written :: "string \<Rightarrow> string option" where
  "hand_written path =
     (if path = primary_path
      then Some (file_header @ ''2000001'' @ TAB # ''Ann'' @ TAB # ''Cs'' @ TAB # ''75'' @ [LF])
      else None)"

text \<open>A primary file as \<^verbatim>\<open>saveDB\<close> writes it for the record of Ann.\<close>

definition saved_ann :: "string \<Rightarrow> string option" where
  "saved_ann path = (if path = primary_path then Some (saved fmt1_dec [ann]) else None)"

section \<open>Evaluation\<close>

lemmas store_eval =
  insertDB_def updateDB_def deleteDB_def findNode_def findNode_loop.simps hashInsert_def
  hashRemove_def hashRemove_loop.simps deleteDB_loop.simps append_node_def hash_def
  in_table_def TABLE_SIZE_def Let_def records_def cloneList.simps say_def pushUndo_def
  undo_def redo_def MAX_NAME_def MAX_PROGRAMME_def freeDB_def freeDB_loop.simps

lemmas string_eval =
  isspace_c_def isdigit_c_def atoi_def INT_MIN_def INT_MAX_def TAB_def LF_def CR_def NUL_def
  c_str_def strip_line_def skip_line_def column_header_def file_header_def MAX_LINE_def Let_def

lemma char_of_numeral:
  "char_of (numeral k :: nat) =
     Char (odd (numeral k :: nat)) (odd (numeral k div 2 :: nat)) (odd (numeral k div 4 :: nat))
       (odd (numeral k div 8 :: nat)) (odd (numeral k div 16 :: nat)) (odd (numeral k div 32 :: nat))
       (odd (numeral k div 64 :: nat)) (odd (numeral k div 128 :: nat))"
  by (simp add: char_of_def bit_iff_odd)

lemmas parse_eval =
  parseCommand_def parse_loop.simps field_index_def key_at_def keys_def store_field_def
  validateID_def validateMark_def toTitleCase_def toupper_c_def tolower_c_def char_of_numeral
  OPTIONAL_NONE_def OPTIONAL_REQUIRED_def OPTIONAL_ALLOWED_EMPTY_def
  validateCommand_def MAX_NAME_def MAX_PROGRAMME_def

lemma load_loop_Nil: "load_loop atof [] s = Some s"
  by (simp add: load_loop.simps)

lemma load_loop_header: "load_loop atof file_header s = Some s"
  by (simp add: load_loop.simps string_eval)

lemma open_header_only: "openDB atof (init header_only) = Some empty_db"
  by (simp add: openDB_def loadDB_def init_def freeDB_def freeDB_loop.simps header_only_def
      load_loop_header empty_db_def say_def)

lemma parse_update_name_only:
  "parseCommand atof ''ID=2000002 NAME=Alice'' True OPTIONAL_REQUIRED = Inr (2000002, ''Alice'', [], 0)"
  by (simp add: parse_eval string_eval)

lemma validate_update_command:
  "validateCommand ''UPDATE ID=2000002 NAME=Alice'' ''UPDATE'' = Some ''ID=2000002 NAME=Alice''"
  by (simp add: validateCommand_def tolower_c_def char_of_numeral isspace_c_def
      TAB_def LF_def CR_def)

lemma insert_ann: "insertDB 2000001 ''Ann'' ''Cs'' 50 False empty_db = Some one_record"
  by (simp add: store_eval empty_db_def one_record_def ann_def)

lemma wf_one_record: "wf one_record [0]"
  by (simp add: wf_def one_record_def)

lemma records_one_record: "records one_record = Some [ann]"
  by (simp add: records_def cloneList.simps one_record_def)

lemma insert_three:
  "run atof [INSERT 2000001 ''Ann'' ''Cs'' 50, INSERT 2000002 ''Bob'' ''Cs'' 60,
             INSERT 2000003 ''Cy'' ''Ee'' 70] empty_db = Some three_records"
  by (simp add: store_eval empty_db_def three_records_def ann_def bob_def cy_def fun_eq_iff
      numeral_2_eq_2)

lemma wf_three_records: "wf three_records [0, 1, 2]"
  by (simp add: wf_def three_records_def)

lemma records_three_records: "records three_records = Some [ann, bob, cy]"
  by (simp add: records_def cloneList.simps three_records_def)

lemmas run_eval = store_eval coherent_at_def three_records_def ann_def bob_def cy_def

section \<open>Lemmas\<close>

subsection \<open>What a load does to the history\<close>

lemma history_simps [simp]:
  "history (say m s) = history s"
  "history (s\<lparr>heap := h\<rparr>) = history s"
  "history (s\<lparr>head := p\<rparr>) = history s"
  "history (s\<lparr>tail := p\<rparr>) = history s"
  "history (s\<lparr>fresh := k\<rparr>) = history s"
  "history (s\<lparr>hashTable := t\<rparr>) = history s"
  "history (s\<lparr>dbLoaded := b\<rparr>) = history s"
  "history (s\<lparr>dbModified := b\<rparr>) = history s"
  by (simp_all add: history_def say_def)





subsection \<open>Lists in the heap\<close>

lemma chain_Nil_iff [simp]: "chain h None as = (as = [])"
  by (cases as) auto

lemma chain_Some:
  "chain h (Some a) as = (\<exists>n bs. as = a # bs \<and> h a = Some n \<and> chain h (nextp n) bs)"
  by (cases as) (auto split: option.splits)

lemma chain_unique: "chain h p as \<Longrightarrow> chain h p bs \<Longrightarrow> as = bs"
proof (induction as arbitrary: p bs)
  case Nil
  then show ?case by simp
next
  case (Cons a as)
  then show ?case by (cases bs) (auto split: option.splits)
qed

lemma chain_suffix: "chain h p (as @ b # bs) \<Longrightarrow> chain h (Some b) (b # bs)"
proof (induction as arbitrary: p)
  case Nil
  then show ?case by simp
next
  case (Cons a as)
  from Cons.prems obtain n where "h a = Some n" and "chain h (nextp n) (as @ b # bs)"
    by (auto split: option.splits)
  then show ?case using Cons.IH by blast
qed

lemma chain_live: "chain h p as \<Longrightarrow> a \<in> set as \<Longrightarrow> h a \<noteq> None"
  by (induction as arbitrary: p) (auto split: option.splits)

lemma chain_distinct: "chain h p as \<Longrightarrow> distinct as"
proof (induction as arbitrary: p)
  case Nil
  then show ?case by simp
next
  case (Cons a as)
  from Cons.prems obtain n where n: "h a = Some n" and rest: "chain h (nextp n) as"
    by (auto split: option.splits)
  have "a \<notin> set as"
  proof
    assume "a \<in> set as"
    then obtain xs ys where split: "as = xs @ a # ys"
      by (auto simp: in_set_conv_decomp)
    with rest have "chain h (Some a) (a # ys)"
      using chain_suffix by blast
    with n have "chain h (nextp n) ys" by simp
    with rest have "as = ys" by (rule chain_unique)
    with split show False by simp
  qed
  with Cons.IH [OF rest] show ?case by simp
qed

lemma chain_cong:
  "(\<And>a. a \<in> set as \<Longrightarrow> map_option nextp (h' a) = map_option nextp (h a)) \<Longrightarrow>
   chain h' p as = chain h p as"
proof (induction as arbitrary: p)
  case Nil
  then show ?case by simp
next
  case (Cons a as)
  have "map_option nextp (h' a) = map_option nextp (h a)"
    by (rule Cons.prems) simp
  moreover have "chain h' q as = chain h q as" for q
    by (rule Cons.IH) (simp add: Cons.prems)
  ultimately show ?case
    by (cases "h a"; cases "h' a") auto
qed

lemma chain_upd_other: "a \<notin> set as \<Longrightarrow> chain (h(a := x)) p as = chain h p as"
  by (rule chain_cong) auto

lemma recs_of_cong:
  "(\<And>a. a \<in> set as \<Longrightarrow> map_option data (h' a) = map_option data (h a)) \<Longrightarrow>
   (\<And>a. a \<in> set as \<Longrightarrow> h a \<noteq> None) \<Longrightarrow> recs_of h' as = recs_of h as"
  unfolding recs_of_def
proof (rule map_cong [OF refl])
  fix a assume a: "a \<in> set as"
  assume same: "\<And>a. a \<in> set as \<Longrightarrow> map_option data (h' a) = map_option data (h a)"
    and live: "\<And>a. a \<in> set as \<Longrightarrow> h a \<noteq> None"
  from same [OF a] live [OF a] show "data (the (h' a)) = data (the (h a))"
    by (cases "h a"; cases "h' a") auto
qed

subsection \<open>The loops on a list\<close>

lemma cloneList_chain: "chain h p as \<Longrightarrow> cloneList h p = Some (recs_of h as)"
proof (induction as arbitrary: p)
  case Nil
  then show ?case by (simp add: cloneList.simps recs_of_def)
next
  case (Cons a as)
  from Cons.prems obtain n where p: "p = Some a" and n: "h a = Some n" and rest: "chain h (nextp n) as"
    by (auto split: option.splits)
  from Cons.IH [OF rest] p n show ?case
    by (subst cloneList.simps) (simp add: recs_of_def)
qed

lemma findNode_loop_chain:
  "chain h p as \<Longrightarrow> findNode_loop h p i = Some (find (\<lambda>a. id_at h a = i) as)"
proof (induction as arbitrary: p)
  case Nil
  then show ?case by (simp add: findNode_loop.simps)
next
  case (Cons a as)
  from Cons.prems obtain n where p: "p = Some a" and n: "h a = Some n" and rest: "chain h (nextp n) as"
    by (auto split: option.splits)
  from Cons.IH [OF rest] p n show ?case
    by (subst findNode_loop.simps) (simp add: id_at_def)
qed

lemma deleteDB_loop_chain:
  "chain h p as \<Longrightarrow>
   deleteDB_loop h prev p i =
     Some (case takeWhile (\<lambda>a. id_at h a \<noteq> i) as of [] \<Rightarrow> prev | b # bs \<Rightarrow> Some (last (b # bs)),
           case dropWhile (\<lambda>a. id_at h a \<noteq> i) as of [] \<Rightarrow> None | c # _ \<Rightarrow> Some c)"
proof (induction as arbitrary: p prev)
  case Nil
  then show ?case by (simp add: deleteDB_loop.simps)
next
  case (Cons a as)
  from Cons.prems obtain n where p: "p = Some a" and n: "h a = Some n" and rest: "chain h (nextp n) as"
    by (auto split: option.splits)
  show ?case
  proof (cases "id_at h a = i")
    case True
    with p n show ?thesis
      by (subst deleteDB_loop.simps) (simp add: id_at_def)
  next
    case False
    with Cons.IH [OF rest, of "Some a"] p n show ?thesis
      by (subst deleteDB_loop.simps) (auto simp: id_at_def split: list.splits)
  qed
qed

lemma freeDB_loop_chain:
  "chain h p as \<Longrightarrow> freeDB_loop p h = Some (\<lambda>a. if a \<in> set as then None else h a)"
proof (induction as arbitrary: p h)
  case Nil
  then show ?case by (simp add: freeDB_loop.simps)
next
  case (Cons a as)
  from Cons.prems obtain n where p: "p = Some a" and n: "h a = Some n" and rest: "chain h (nextp n) as"
    by (auto split: option.splits)
  from chain_distinct [OF Cons.prems] have "a \<notin> set as" by simp
  with rest have "chain (h(a := None)) (nextp n) as"
    by (simp add: chain_upd_other)
  from Cons.IH [OF this]
  have "freeDB_loop (nextp n) (h(a := None)) =
      Some (\<lambda>b. if b \<in> set as then None else (h(a := None)) b)" .
  moreover have "(\<lambda>b. if b \<in> set as then None else (h(a := None)) b) =
      (\<lambda>b. if b \<in> set (a # as) then None else h b)"
    by (auto simp: fun_eq_iff)
  ultimately show ?case using p n
    by (subst freeDB_loop.simps) simp
qed

lemma save_loop_chain:
  "chain h p as \<Longrightarrow>
   save_loop fmt1 h p memContent = Some (memContent @ concat (map (format_line fmt1) (recs_of h as)))"
proof (induction as arbitrary: p memContent)
  case Nil
  then show ?case by (simp add: save_loop.simps recs_of_def)
next
  case (Cons a as)
  from Cons.prems obtain n where p: "p = Some a" and n: "h a = Some n" and rest: "chain h (nextp n) as"
    by (auto split: option.splits)
  from Cons.IH [OF rest] p n show ?case
    by (subst save_loop.simps) (simp add: recs_of_def)
qed

lemma hashRemove_loop_absent:
  "chain (heap s) p as \<Longrightarrow> \<forall>a\<in>set as. id_at (heap s) a \<noteq> i \<Longrightarrow>
   hashRemove_loop index i prev p s = Some s"
proof (induction as arbitrary: p prev)
  case Nil
  then show ?case by (simp add: hashRemove_loop.simps)
next
  case (Cons a as)
  from Cons.prems obtain n where p: "p = Some a" and n: "heap s a = Some n"
    and rest: "chain (heap s) (nextp n) as"
    by (auto split: option.splits)
  from Cons.prems(2) have "id_num (data n) \<noteq> i" and "\<forall>a\<in>set as. id_at (heap s) a \<noteq> i"
    using n by (auto simp: id_at_def)
  with Cons.IH [OF rest, of "Some a"] p n show ?case
    by (subst hashRemove_loop.simps) simp
qed

subsection \<open>Appending a node\<close>

lemma wf_records: "wf s as \<Longrightarrow> records s = Some (recs_of (heap s) as)"
  by (simp add: wf_def records_def cloneList_chain)

lemma wf_fresh: "wf s as \<Longrightarrow> heap s (fresh s) = None"
  by (auto simp: wf_def)

lemma chain_snoc:
  assumes "chain h p as" and "as \<noteq> []" and "h (last as) = Some tn" and "new \<notin> set as"
    and "nextp nn = None"
  shows "chain (h(new \<mapsto> nn, last as \<mapsto> tn\<lparr>nextp := Some new\<rparr>)) p (as @ [new])"
  using assms
proof (induction as arbitrary: p)
  case Nil
  then show ?case by simp
next
  case (Cons a as)
  from Cons.prems obtain n where p: "p = Some a" and n: "h a = Some n" and rest: "chain h (nextp n) as"
    by (auto split: option.splits)
  show ?case
  proof (cases "as = []")
    case True
    with Cons.prems p n rest show ?thesis by auto
  next
    case False
    from chain_distinct [OF Cons.prems(1)] False have "a \<noteq> last as" by auto
    moreover from Cons.prems False have "h (last as) = Some tn" "new \<notin> set as" "a \<noteq> new"
      by auto
    moreover note Cons.IH [OF rest False \<open>h (last as) = Some tn\<close> \<open>new \<notin> set as\<close> Cons.prems(5)]
    ultimately show ?thesis using p n False by auto
  qed
qed

lemma append_node_wf:
  assumes wf: "wf s as"
    and fits: "length (name r) < MAX_NAME" "length (programme r) < MAX_PROGRAMME"
    and ix: "in_table (hash (id_num r))"
  shows "\<exists>s'. append_node r s = Some s' \<and> wf s' (as @ [fresh s]) \<and>
           recs_of (heap s') (as @ [fresh s]) = recs_of (heap s) as @ [r] \<and>
           hashTable s' = (hashTable s)(hash (id_num r) := Some (fresh s)) \<and>
           history s' = history s \<and> frame s' = frame s \<and> out s' = out s \<and>
           dbModified s' = dbModified s"
proof -
  let ?new = "fresh s"
  let ?nn = "\<lparr>data = r, nextp = None, hashNext = hashTable s (hash (id_num r))\<rparr>"
  from wf have ch: "chain (heap s) (head s) as" and tl: "as \<noteq> [] \<longrightarrow> tail s = Some (last as)"
    and live: "\<forall>a. heap s a \<noteq> None \<longrightarrow> a \<in> set as" and lt: "\<forall>a\<in>set as. a < fresh s"
    by (auto simp: wf_def)
  from lt have new: "?new \<notin> set as" by auto
  show ?thesis
  proof (cases "as = []")
    case True
    with ch have hd: "head s = None" by simp
    let ?s' = "s\<lparr>heap := (heap s)(?new \<mapsto> ?nn), fresh := Suc ?new, head := Some ?new, tail := Some ?new,
                 hashTable := (hashTable s)(hash (id_num r) := Some ?new)\<rparr>"
    have "append_node r s = Some ?s'"
      using fits ix hd by (simp add: append_node_def hashInsert_def Let_def)
    moreover have "wf ?s' (as @ [?new])"
      using True live by (auto simp: wf_def)
    moreover have "recs_of (heap ?s') (as @ [?new]) = recs_of (heap s) as @ [r]"
      using True by (simp add: recs_of_def)
    ultimately show ?thesis
      by (auto simp: history_def frame_def)
  next
    case False
    with ch obtain a0 where hd: "head s = Some a0" by (cases as) auto
    from False tl have t: "tail s = Some (last as)" by simp
    from chain_live [OF ch, of "last as"] False obtain tn where tn: "heap s (last as) = Some tn"
      by auto
    from new False have ne: "last as \<noteq> ?new" by (metis last_in_set)
    let ?h' = "(heap s)(?new \<mapsto> ?nn, last as \<mapsto> tn\<lparr>nextp := Some ?new\<rparr>)"
    let ?s' = "s\<lparr>heap := ?h', fresh := Suc ?new, tail := Some ?new,
                 hashTable := (hashTable s)(hash (id_num r) := Some ?new)\<rparr>"
    have "append_node r s = Some ?s'"
      using fits ix hd t tn ne
      by (simp add: append_node_def hashInsert_def Let_def fun_upd_twist)
    moreover have "chain ?h' (head s) (as @ [?new])"
      by (rule chain_snoc [OF ch False tn new]) simp
    then have "wf ?s' (as @ [?new])"
      using live lt False by (auto simp: wf_def less_Suc_eq)
    moreover have "recs_of ?h' as = recs_of (heap s) as"
      using new tn by (intro recs_of_cong) (auto dest: chain_live [OF ch])
    then have "recs_of (heap ?s') (as @ [?new]) = recs_of (heap s) as @ [r]"
      using ne by (simp add: recs_of_def)
    ultimately show ?thesis
      by (auto simp: history_def frame_def)
  qed
qed

subsection \<open>One mutation of a well-formed store\<close>

lemma coherent_atD:
  assumes "wf s as" and "coherent_at s i"
  shows "in_table (hash i)"
    and "findNode s i = Some (find (\<lambda>a. id_at (heap s) a = i) as)"
    and "hashTable s (hash i) = None \<or> (\<exists>m\<in>set as. hashTable s (hash i) = Some m)"
proof -
  from assms(1) have ch: "chain (heap s) (head s) as"
    and live: "\<forall>a. heap s a \<noteq> None \<longrightarrow> a \<in> set as"
    by (auto simp: wf_def)
  from assms(2) obtain found where f: "findNode s i = Some found"
    and scan: "findNode_loop (heap s) (head s) i = Some found"
    by (auto simp: coherent_at_def split: option.splits)
  from f show ix: "in_table (hash i)"
    by (auto simp: findNode_def Let_def split: if_splits)
  from scan findNode_loop_chain [OF ch, of i] f
  show "findNode s i = Some (find (\<lambda>a. id_at (heap s) a = i) as)" by simp
  from f ix have walk: "findNode_loop (heap s) (hashTable s (hash i)) i = Some found"
    by (simp add: findNode_def Let_def)
  show "hashTable s (hash i) = None \<or> (\<exists>m\<in>set as. hashTable s (hash i) = Some m)"
  proof (cases "hashTable s (hash i)")
    case None
    then show ?thesis by simp
  next
    case (Some m)
    with walk have "heap s m \<noteq> None"
      by (subst (asm) findNode_loop.simps) (auto split: option.splits)
    with live Some show ?thesis by auto
  qed
qed

lemma find_None_iff_absent: "find P xs = None \<longleftrightarrow> (\<forall>x\<in>set xs. \<not> P x)"
  by (induction xs) auto

lemma insert_step:
  fixes mk :: rat
  assumes wf: "wf s as" and coh: "coherent_at s i"
    and absent: "\<forall>a\<in>set as. id_at (heap s) a \<noteq> i"
    and fits: "length nm < MAX_NAME" "length prog < MAX_PROGRAMME"
  defines "r \<equiv> \<lparr>id_num = i, name = nm, programme = prog, mark = mk\<rparr>"
  shows "\<exists>s'. insertDB i nm prog mk replay s = Some s' \<and> wf s' (as @ [fresh s]) \<and>
           recs_of (heap s') (as @ [fresh s]) = recs_of (heap s) as @ [r] \<and>
           history s' = (if replay then history s else (INSERT_OP r # undoStack s, [])) \<and>
           frame s' = frame s"
proof -
  from coherent_atD [OF wf coh] absent
  have ix: "in_table (hash i)" and notfound: "findNode s i = Some None"
    by (simp_all add: find_None_iff_absent)
  from append_node_wf [OF wf, of r] fits ix
  obtain s1 where s1: "append_node r s = Some s1" and wf1: "wf s1 (as @ [fresh s])"
    and recs1: "recs_of (heap s1) (as @ [fresh s]) = recs_of (heap s) as @ [r]"
    and h1: "history s1 = history s" and f1: "frame s1 = frame s"
    by (auto simp: r_def)
  let ?s2 = "(if \<not> replay then say (Inserted i) (pushUndo (INSERT_OP r) s1) else s1)"
  have "insertDB i nm prog mk replay s = Some (?s2\<lparr>dbModified := True\<rparr>)"
    using notfound s1 by (simp add: insertDB_def r_def Let_def)
  moreover have "wf (?s2\<lparr>dbModified := True\<rparr>) (as @ [fresh s])"
    using wf1 by (simp add: wf_def say_def pushUndo_def)
  moreover have "recs_of (heap (?s2\<lparr>dbModified := True\<rparr>)) (as @ [fresh s]) = recs_of (heap s) as @ [r]"
    using recs1 by (simp add: say_def pushUndo_def)
  moreover have "history (?s2\<lparr>dbModified := True\<rparr>) =
      (if replay then history s else (INSERT_OP r # undoStack s, []))"
    using h1 by (simp add: history_def say_def pushUndo_def)
  moreover have "frame (?s2\<lparr>dbModified := True\<rparr>) = frame s"
    using f1 by (simp add: frame_def say_def pushUndo_def)
  ultimately show ?thesis by blast
qed

lemma find_split:
  "\<forall>a\<in>set pre. \<not> P a \<Longrightarrow> P c \<Longrightarrow> find P (pre @ c # post) = Some c"
  by (induction pre) auto

lemma update_step:
  fixes mk :: rat and nm prog :: string
  assumes wf: "wf s (pre @ c # post)" and coh: "coherent_at s i"
    and before: "\<forall>a\<in>set pre. id_at (heap s) a \<noteq> i" and here: "id_at (heap s) c = i"
    and fits: "length nm < MAX_NAME" "length prog < MAX_PROGRAMME"
  defines "old \<equiv> data (the (heap s c))"
  shows "\<exists>s'. updateDB i nm prog mk replay s = Some s' \<and> wf s' (pre @ c # post) \<and>
           recs_of (heap s') (pre @ c # post) =
             recs_of (heap s) pre @ patched nm prog mk old # recs_of (heap s) post \<and>
           history s' = (if replay then history s
                         else (UPDATE_OP old (patched nm prog mk old) # undoStack s, [])) \<and>
           frame s' = frame s"
proof -
  let ?as = "pre @ c # post"
  from wf have ch: "chain (heap s) (head s) ?as" by (simp add: wf_def)
  from coherent_atD(2) [OF wf coh] before here have found: "findNode s i = Some (Some c)"
    by (simp add: find_split)
  from chain_live [OF ch, of c] obtain n where n: "heap s c = Some n" by auto
  then have old: "old = data n" by (simp add: old_def)
  let ?new = "patched nm prog mk old"
  let ?h' = "(heap s)(c \<mapsto> n\<lparr>data := ?new\<rparr>)"
  let ?s1 = "s\<lparr>heap := ?h'\<rparr>"
  let ?s2 = "(if \<not> replay then say (Updated i) (pushUndo (UPDATE_OP old ?new) ?s1) else ?s1)"
  have run: "updateDB i nm prog mk replay s = Some (?s2\<lparr>dbModified := True\<rparr>)"
    using found n fits old by (simp add: updateDB_def Let_def patched_def)
  have "chain ?h' (head s) ?as = chain (heap s) (head s) ?as"
    using n by (intro chain_cong) auto
  with wf n have wf': "wf (?s2\<lparr>dbModified := True\<rparr>) ?as"
    by (auto simp: wf_def say_def pushUndo_def)
  from chain_distinct [OF ch] have c_pre: "c \<notin> set pre" and c_post: "c \<notin> set post" by auto
  have "recs_of ?h' pre = recs_of (heap s) pre" "recs_of ?h' post = recs_of (heap s) post"
    using c_pre c_post by (auto simp: recs_of_def)
  then have recs: "recs_of (heap (?s2\<lparr>dbModified := True\<rparr>)) ?as =
      recs_of (heap s) pre @ ?new # recs_of (heap s) post"
    by (simp add: recs_of_def say_def pushUndo_def)
  have hist: "history (?s2\<lparr>dbModified := True\<rparr>) =
      (if replay then history s else (UPDATE_OP old ?new # undoStack s, []))"
    by (simp add: history_def say_def pushUndo_def)
  have "frame (?s2\<lparr>dbModified := True\<rparr>) = frame s"
    by (simp add: frame_def say_def pushUndo_def)
  with run wf' recs hist show ?thesis by blast
qed

lemma chain_next:
  "chain h p (c # post) \<Longrightarrow> h c = Some n \<Longrightarrow>
   chain h (nextp n) post \<and> nextp n = (case post of [] \<Rightarrow> None | d # _ \<Rightarrow> Some d)"
  by (cases post) (auto split: option.splits)

lemma chain_unlink:
  assumes "chain h p (pre @ c # post)" and "pre \<noteq> []" and "h c = Some n"
    and "h (last pre) = Some pn"
  shows "chain (h(last pre \<mapsto> pn\<lparr>nextp := nextp n\<rparr>)) p (pre @ post)"
  using assms
proof (induction pre arbitrary: p)
  case Nil
  then show ?case by simp
next
  case (Cons a pre)
  from Cons.prems(1) obtain an where p: "p = Some a" and an: "h a = Some an"
    and rest: "chain h (nextp an) (pre @ c # post)"
    by (auto split: option.splits)
  from chain_distinct [OF Cons.prems(1)]
  have dist: "a \<notin> set pre" "a \<notin> set post" "a \<noteq> c" "c \<notin> set post" "distinct (pre @ c # post)"
    by auto
  show ?case
  proof (cases "pre = []")
    case True
    with rest Cons.prems(3) have nx: "nextp an = Some c" and post: "chain h (nextp n) post"
      by (auto split: option.splits)
    from True Cons.prems(4) an have pn: "pn = an" by simp
    from post chain_upd_other [OF dist(2), of h "Some (pn\<lparr>nextp := nextp n\<rparr>)" "nextp n"]
    have "chain (h(a \<mapsto> pn\<lparr>nextp := nextp n\<rparr>)) (nextp n) post"
      by blast
    then show ?thesis
      using True p by (simp del: fun_upd_apply add: fun_upd_same)
  next
    case False
    with dist have "a \<noteq> last pre" by (metis last_in_set)
    moreover from False Cons.prems(4) have "h (last pre) = Some pn" by simp
    note Cons.IH [OF rest False Cons.prems(3) this]
    ultimately show ?thesis
      using p an False by simp
  qed
qed

lemma takeWhile_split:
  "\<forall>a\<in>set pre. P a \<Longrightarrow> \<not> P c \<Longrightarrow> takeWhile P (pre @ c # post) = pre"
  by (induction pre) auto

lemma dropWhile_split:
  "\<forall>a\<in>set pre. P a \<Longrightarrow> \<not> P c \<Longrightarrow> dropWhile P (pre @ c # post) = c # post"
  by (induction pre) auto

lemma id_at_cong: "map_option data (h' a) = map_option data (h a) \<Longrightarrow> h a \<noteq> None \<Longrightarrow> id_at h' a = id_at h a"
  by (cases "h a"; cases "h' a") (auto simp: id_at_def)

text \<open>\<^verbatim>\<open>hashRemove\<close> on the store from which the node \<open>c\<close> has just been unlinked.\<close>

lemma hashRemove_unlinked:
  assumes ch: "chain (heap s) (head s) bs" and c: "heap s c = Some n" and "c \<notin> set bs"
    and ids: "\<forall>a\<in>set bs. id_at (heap s) a \<noteq> i" and idc: "id_num (data n) = i"
    and ix: "in_table (hash i)"
    and bucket: "hashTable s (hash i) = None \<or> hashTable s (hash i) = Some c \<or>
                 (\<exists>m\<in>set bs. hashTable s (hash i) = Some m)"
  shows "hashRemove i s =
           Some (if hashTable s (hash i) = Some c
                 then s\<lparr>hashTable := (hashTable s)(hash i := nextp n)\<rparr> else s)"
proof -
  consider (none) "hashTable s (hash i) = None" | (self) "hashTable s (hash i) = Some c"
    | (other) m where "m \<in> set bs" "hashTable s (hash i) = Some m"
    using bucket by auto
  then show ?thesis
  proof cases
    case none
    with ix show ?thesis by (simp add: hashRemove_def hashRemove_loop.simps)
  next
    case self
    with ix c idc show ?thesis by (simp add: hashRemove_def hashRemove_loop.simps)
  next
    case other
    from other(1) obtain xs ys where split: "bs = xs @ m # ys"
      by (auto simp: in_set_conv_decomp)
    with ch have "chain (heap s) (Some m) (m # ys)"
      using chain_suffix by blast
    moreover from ids split have "\<forall>a\<in>set (m # ys). id_at (heap s) a \<noteq> i" by auto
    ultimately have "hashRemove_loop (hash i) i None (Some m) s = Some s"
      by (rule hashRemove_loop_absent)
    moreover from other \<open>c \<notin> set bs\<close> have "hashTable s (hash i) \<noteq> Some c" by auto
    ultimately show ?thesis using ix other by (simp add: hashRemove_def)
  qed
qed

lemma delete_step:
  assumes wf: "wf s (pre @ c # post)" and coh: "coherent_at s i"
    and before: "\<forall>a\<in>set pre. id_at (heap s) a \<noteq> i" and here: "id_at (heap s) c = i"
    and after: "\<forall>a\<in>set post. id_at (heap s) a \<noteq> i"
  defines "old \<equiv> data (the (heap s c))"
  shows "\<exists>s'. deleteDB i True replay s = Some (1, s') \<and> wf s' (pre @ post) \<and>
           recs_of (heap s') (pre @ post) = recs_of (heap s) pre @ recs_of (heap s) post \<and>
           history s' = (if replay then history s else (DELETE_OP old # undoStack s, [])) \<and>
           frame s' = frame s"
proof -
  let ?as = "pre @ c # post"
  let ?h = "heap s"
  from wf have ch: "chain ?h (head s) ?as" and tl: "tail s = Some (last ?as)"
    and live: "\<forall>a. ?h a \<noteq> None \<longrightarrow> a \<in> set ?as" and lt: "\<forall>a\<in>set ?as. a < fresh s"
    by (auto simp: wf_def)
  from chain_distinct [OF ch] have dist: "distinct ?as" .
  then have c_pre: "c \<notin> set pre" and c_post: "c \<notin> set post" by auto
  from chain_live [OF ch, of c] obtain n where n: "?h c = Some n" by auto
  then have old: "old = data n" and idn: "id_num (data n) = i"
    using here by (simp_all add: old_def id_at_def)
  from chain_suffix [OF ch] have "chain ?h (Some c) (c # post)" .
  from chain_next [OF this n] have post: "chain ?h (nextp n) post" by auto
  have lastpre: "\<exists>pn. ?h (last pre) = Some pn" if "pre \<noteq> []"
  proof -
    from that have "last pre \<in> set ?as" by simp
    from chain_live [OF ch this] show ?thesis by auto
  qed
  define prev where "prev = (case pre of [] \<Rightarrow> None | b # bs \<Rightarrow> Some (last (b # bs)))"
  have prev: "prev = (if pre = [] then None else Some (last pre))"
    by (cases pre) (simp_all add: prev_def)
  have scan: "deleteDB_loop ?h None (head s) i = Some (prev, Some c)"
    using deleteDB_loop_chain [OF ch, of None i] before here
    by (simp add: takeWhile_split dropWhile_split prev_def)
  define s1 where "s1 = (if \<not> replay then pushUndo (DELETE_OP (data n)) s else s)"
  have h1: "heap s1 = ?h" "head s1 = head s" "tail s1 = tail s" "hashTable s1 = hashTable s"
    "fresh s1 = fresh s" "out s1 = out s"
    "dbLoaded s1 = dbLoaded s" "files s1 = files s" "writable s1 = writable s"
    by (simp_all add: s1_def pushUndo_def)
  have hist1: "history s1 = (if replay then history s else (DELETE_OP old # undoStack s, []))"
    by (simp add: s1_def pushUndo_def history_def old)
  \<comment> \<open>the store after the node has left the list\<close>
  define h2 where "h2 = (if pre = [] then ?h
      else ?h(last pre \<mapsto> (the (?h (last pre)))\<lparr>nextp := nextp n\<rparr>))"
  define s2 where "s2 = s1\<lparr>heap := h2, head := (if pre = [] then nextp n else head s)\<rparr>"
  define s3 where "s3 = (if post = [] then s2\<lparr>tail := prev\<rparr> else s2)"
  let ?unlinked = "case prev of
        None \<Rightarrow> Some (s1\<lparr>head := nextp n\<rparr>)
      | Some p \<Rightarrow>
          (case heap s1 p of
             None \<Rightarrow> None
           | Some pn \<Rightarrow> Some (s1\<lparr>heap := (heap s1)(p \<mapsto> pn\<lparr>nextp := nextp n\<rparr>)\<rparr>))"
  let ?finish = "\<lambda>s2. hashRemove i (if Some c = tail s2 then s2\<lparr>tail := prev\<rparr> else s2) \<bind>
      (\<lambda>s4. Some (1::int, (if \<not> replay then say (Deleted i) (s4\<lparr>heap := (heap s4)(c := None)\<rparr>)
                          else s4\<lparr>heap := (heap s4)(c := None)\<rparr>)\<lparr>dbModified := True\<rparr>))"
  have step1: "deleteDB i True replay s = ?unlinked \<bind> ?finish"
    unfolding s1_def by (simp add: deleteDB_def scan n Let_def)
  have step2: "?unlinked = Some s2"
  proof (cases "pre = []")
    case True
    then show ?thesis by (simp add: prev s2_def h2_def h1)
  next
    case False
    from lastpre [OF False] obtain pn where pn: "?h (last pre) = Some pn" by auto
    with False show ?thesis by (simp add: prev s2_def h2_def h1)
  qed
  have last_c: "(Some c = tail s) = (post = [])"
    using tl dist by (cases post rule: rev_cases) auto
  have step3: "(if Some c = tail s2 then s2\<lparr>tail := prev\<rparr> else s2) = s3"
    using last_c by (simp add: s3_def s2_def h1)
  have p3: "heap s3 = h2" "head s3 = (if pre = [] then nextp n else head s)"
    "tail s3 = (if post = [] then prev else tail s)" "hashTable s3 = hashTable s"
    "fresh s3 = fresh s" "frame s3 = frame s" "out s3 = out s" "history s3 = history s1"
    by (simp_all add: s3_def s2_def h1 frame_def history_def)
  have ch2: "chain h2 (head s3) (pre @ post)"
  proof (cases "pre = []")
    case True
    with post show ?thesis by (simp add: h2_def p3)
  next
    case False
    from lastpre [OF False] obtain pn where pn: "?h (last pre) = Some pn" by auto
    from chain_unlink [OF ch False n pn] False pn show ?thesis
      by (simp add: h2_def p3)
  qed
  have h2c: "h2 c = Some n"
    using n c_pre by (auto simp: h2_def dest: last_in_set)
  have h2data: "map_option data (h2 a) = map_option data (?h a)" for a
    using lastpre by (auto simp: h2_def)
  have h2live: "h2 a \<noteq> None \<longleftrightarrow> ?h a \<noteq> None" for a
    using lastpre by (auto simp: h2_def)
  have ids3: "\<forall>a\<in>set (pre @ post). id_at (heap s3) a \<noteq> i"
  proof
    fix a assume a: "a \<in> set (pre @ post)"
    then have "?h a \<noteq> None" using chain_live [OF ch, of a] by auto
    from id_at_cong [of h2 a ?h, OF h2data this] before after a show "id_at (heap s3) a \<noteq> i"
      by (auto simp: p3)
  qed
  have bucket: "hashTable s3 (hash i) = None \<or> hashTable s3 (hash i) = Some c \<or>
      (\<exists>m\<in>set (pre @ post). hashTable s3 (hash i) = Some m)"
    using coherent_atD(3) [OF wf coh] by (auto simp: p3)
  have "c \<notin> set (pre @ post)" using c_pre c_post by simp
  define s4 where "s4 = (if hashTable s3 (hash i) = Some c
      then s3\<lparr>hashTable := (hashTable s3)(hash i := nextp n)\<rparr> else s3)"
  from ch2 h2c \<open>c \<notin> set (pre @ post)\<close> have s4: "hashRemove i s3 = Some s4"
    unfolding s4_def
    using ids3 idn coherent_atD(1) [OF wf coh] bucket
    by (intro hashRemove_unlinked [where bs = "pre @ post"]) (simp_all add: p3)
  have h4: "heap s4 = h2" and hd4: "head s4 = head s3" and tl4: "tail s4 = tail s3"
    and fr4: "fresh s4 = fresh s" and hist4: "history s4 = history s1"
    and frame4: "frame s4 = frame s"
    using p3 by (simp_all add: s4_def history_def frame_def)
  let ?s5 = "s4\<lparr>heap := (heap s4)(c := None)\<rparr>"
  let ?s6 = "if \<not> replay then say (Deleted i) ?s5 else ?s5"
  have run: "deleteDB i True replay s = Some (1, ?s6\<lparr>dbModified := True\<rparr>)"
    by (simp only: step1 step2 Option.bind.bind_lunit step3 s4)
  have wf': "wf (?s6\<lparr>dbModified := True\<rparr>) (pre @ post)"
  proof -
    have "chain (h2(c := None)) (head s3) (pre @ post)"
      using ch2 c_pre c_post by (simp add: chain_upd_other)
    moreover have "pre @ post \<noteq> [] \<longrightarrow> tail s3 = Some (last (pre @ post))"
      using tl by (simp add: p3 prev)
    moreover have "\<forall>a. (h2(c := None)) a \<noteq> None \<longrightarrow> a \<in> set (pre @ post)"
      using live h2live by auto
    ultimately show ?thesis
      using lt h4 hd4 tl4 fr4 by (auto simp: wf_def say_def)
  qed
  have recs: "recs_of (heap (?s6\<lparr>dbModified := True\<rparr>)) (pre @ post) =
      recs_of ?h pre @ recs_of ?h post"
  proof -
    have "recs_of (h2(c := None)) (pre @ post) = recs_of ?h (pre @ post)"
    proof (rule recs_of_cong)
      fix a assume "a \<in> set (pre @ post)"
      with c_pre c_post show "map_option data ((h2(c := None)) a) = map_option data (?h a)"
        using h2data by auto
    next
      fix a assume "a \<in> set (pre @ post)"
      then show "?h a \<noteq> None" using chain_live [OF ch, of a] by auto
    qed
    then show ?thesis by (simp add: h4 say_def recs_of_def)
  qed
  have hist: "history (?s6\<lparr>dbModified := True\<rparr>) =
      (if replay then history s else (DELETE_OP old # undoStack s, []))"
    using hist4 hist1 by (simp add: history_def say_def)
  have "frame (?s6\<lparr>dbModified := True\<rparr>) = frame s"
    using frame4 by (simp add: frame_def say_def)
  with run wf' recs hist show ?thesis by blast
qed

subsection \<open>Mutations and undo on the record sequence\<close>

lemma sound_records: "sound s rs \<Longrightarrow> records s = Some rs"
  by (auto simp: sound_def wf_records)

lemma ids_recs_of: "map id_num (recs_of h as) = map (id_at h) as"
  by (simp add: recs_of_def id_at_def)

lemma recs_of_split:
  assumes "recs_of h as = pre @ x # post"
  obtains as1 c as2 where "as = as1 @ c # as2" "recs_of h as1 = pre" "data (the (h c)) = x"
    "recs_of h as2 = post"
  using assms unfolding recs_of_def
  by (auto simp: map_eq_append_conv map_eq_Cons_conv)

lemma absent_iff: "(\<forall>a\<in>set as. id_at h a \<noteq> i) \<longleftrightarrow> i \<notin> id_num ` set (recs_of h as)"
  by (auto simp: recs_of_def id_at_def)

lemma coherent_absent:
  assumes "sound s rs" and "coherent_at s i"
  shows "findNode s i = Some None \<longleftrightarrow> i \<notin> id_num ` set rs"
proof -
  from assms(1) obtain as where wf: "wf s as" and rs: "recs_of (heap s) as = rs"
    by (auto simp: sound_def)
  from coherent_atD(2) [OF wf assms(2)]
  have "findNode s i = Some None \<longleftrightarrow> (\<forall>a\<in>set as. id_at (heap s) a \<noteq> i)"
    by (simp add: find_None_iff_absent)
  with rs show ?thesis by (simp add: absent_iff)
qed

lemma first_with_id:
  "i \<in> id_num ` set rs \<Longrightarrow>
   \<exists>pre old post. rs = pre @ old # post \<and> id_num old = i \<and> i \<notin> id_num ` set pre"
proof (induction rs)
  case Nil
  then show ?case by simp
next
  case (Cons r rs)
  show ?case
  proof (cases "id_num r = i")
    case True
    then have "r # rs = [] @ r # rs \<and> id_num r = i \<and> i \<notin> id_num ` set []" by simp
    then show ?thesis by blast
  next
    case False
    with Cons.prems have "i \<in> id_num ` set rs" by auto
    from Cons.IH [OF this] obtain pre old post
      where "rs = pre @ old # post" "id_num old = i" "i \<notin> id_num ` set pre" by blast
    with False have "r # rs = (r # pre) @ old # post \<and> id_num old = i \<and> i \<notin> id_num ` set (r # pre)"
      by auto
    then show ?thesis by blast
  qed
qed

lemma insertDB_fits:
  "insertDB i nm prog mk replay s = Some s' \<Longrightarrow> findNode s i = Some None \<Longrightarrow>
   length nm < MAX_NAME \<and> length prog < MAX_PROGRAMME"
  by (auto simp: insertDB_def append_node_def Let_def split: if_splits bind_splits)

lemma updateDB_fits:
  "updateDB i nm prog mk replay s = Some s' \<Longrightarrow> findNode s i = Some (Some a) \<Longrightarrow>
   length nm < MAX_NAME \<and> length prog < MAX_PROGRAMME"
  by (auto simp: updateDB_def Let_def split: if_splits bind_splits option.splits)

lemma sound_insert:
  fixes mk :: rat
  assumes "sound s rs" and "coherent_at s i" and "i \<notin> id_num ` set rs"
    and run: "insertDB i nm prog mk replay s = Some s'"
  defines "r \<equiv> \<lparr>id_num = i, name = nm, programme = prog, mark = mk\<rparr>"
  shows "sound s' (rs @ [r])"
    and "history s' = (if replay then history s else (INSERT_OP r # undoStack s, []))"
    and "frame s' = frame s"
proof -
  from assms(1) obtain as where wf: "wf s as" and rs: "recs_of (heap s) as = rs"
    by (auto simp: sound_def)
  from coherent_absent [OF assms(1,2)] assms(3) have nf: "findNode s i = Some None" by simp
  from assms(3) rs have absent: "\<forall>a\<in>set as. id_at (heap s) a \<noteq> i"
    by (simp add: absent_iff)
  from insert_step [OF wf assms(2) absent, of nm prog mk replay] insertDB_fits [OF run nf] run
  have "wf s' (as @ [fresh s])" "recs_of (heap s') (as @ [fresh s]) = recs_of (heap s) as @ [r]"
    and h: "history s' = (if replay then history s else (INSERT_OP r # undoStack s, []))"
    and f: "frame s' = frame s"
    by (auto simp: r_def)
  with rs show "sound s' (rs @ [r])" by (auto simp: sound_def)
  from h show "history s' = (if replay then history s else (INSERT_OP r # undoStack s, []))" .
  from f show "frame s' = frame s" .
qed

lemma sound_update:
  fixes mk :: rat and nm prog :: string
  assumes "sound s rs" and coh: "coherent_at s i" and split: "rs = pre @ old # post"
    and pre: "i \<notin> id_num ` set pre" and old: "id_num old = i"
    and run: "updateDB i nm prog mk replay s = Some s'"
  shows "sound s' (pre @ patched nm prog mk old # post)"
    and "history s' = (if replay then history s
                       else (UPDATE_OP old (patched nm prog mk old) # undoStack s, []))"
    and "frame s' = frame s"
proof -
  from assms(1) obtain as where wf: "wf s as" and rs: "recs_of (heap s) as = rs"
    by (auto simp: sound_def)
  from rs split obtain as1 c as2 where as: "as = as1 @ c # as2" and r1: "recs_of (heap s) as1 = pre"
    and c: "data (the (heap s c)) = old" and r2: "recs_of (heap s) as2 = post"
    by (auto elim: recs_of_split)
  from pre r1 have before: "\<forall>a\<in>set as1. id_at (heap s) a \<noteq> i" by (simp add: absent_iff)
  from c old have here: "id_at (heap s) c = i" by (simp add: id_at_def)
  from wf as have wf1: "wf s (as1 @ c # as2)" by simp
  from coherent_atD(2) [OF wf1 coh] before here have found: "findNode s i = Some (Some c)"
    by (simp add: find_split)
  from update_step [OF wf1 coh before here, of nm prog mk replay] updateDB_fits [OF run found] run c r1 r2
  have "wf s' (as1 @ c # as2)"
    "recs_of (heap s') (as1 @ c # as2) = pre @ patched nm prog mk old # post"
    and h: "history s' = (if replay then history s
                          else (UPDATE_OP old (patched nm prog mk old) # undoStack s, []))"
    and f: "frame s' = frame s"
    by auto
  then show "sound s' (pre @ patched nm prog mk old # post)" by (auto simp: sound_def)
  from h show "history s' = (if replay then history s
                       else (UPDATE_OP old (patched nm prog mk old) # undoStack s, []))" .
  from f show "frame s' = frame s" .
qed

lemma sound_delete:
  assumes "sound s rs" and coh: "coherent_at s i" and split: "rs = pre @ old # post"
    and pre: "i \<notin> id_num ` set pre" and old: "id_num old = i" and post: "i \<notin> id_num ` set post"
    and run: "deleteDB i True replay s = Some (k, s')"
  shows "sound s' (pre @ post)"
    and "history s' = (if replay then history s else (DELETE_OP old # undoStack s, []))"
    and "frame s' = frame s"
proof -
  from assms(1) obtain as where wf: "wf s as" and rs: "recs_of (heap s) as = rs"
    by (auto simp: sound_def)
  from rs split obtain as1 c as2 where as: "as = as1 @ c # as2" and r1: "recs_of (heap s) as1 = pre"
    and c: "data (the (heap s c)) = old" and r2: "recs_of (heap s) as2 = post"
    by (auto elim: recs_of_split)
  from pre r1 have before: "\<forall>a\<in>set as1. id_at (heap s) a \<noteq> i" by (simp add: absent_iff)
  from post r2 have after: "\<forall>a\<in>set as2. id_at (heap s) a \<noteq> i" by (simp add: absent_iff)
  from c old have here: "id_at (heap s) c = i" by (simp add: id_at_def)
  from wf as have wf1: "wf s (as1 @ c # as2)" by simp
  from delete_step [OF wf1 coh before here after, of replay] run c r1 r2
  have "wf s' (as1 @ as2)" "recs_of (heap s') (as1 @ as2) = pre @ post"
    and h: "history s' = (if replay then history s else (DELETE_OP old # undoStack s, []))"
    and f: "frame s' = frame s"
    by auto
  then show "sound s' (pre @ post)" by (auto simp: sound_def)
  from h show "history s' = (if replay then history s else (DELETE_OP old # undoStack s, []))" .
  from f show "frame s' = frame s" .
qed

lemma run_append: "run atof (xs @ ys) s = run atof xs s \<bind> run atof ys"
  by (induction xs arbitrary: s) (auto split: bind_splits)

lemma coherent_run_append:
  "coherent_run atof (xs @ ys) s =
     (coherent_run atof xs s \<and>
      (case run atof xs s of None \<Rightarrow> False | Some s' \<Rightarrow> coherent_run atof ys s'))"
  by (induction xs arbitrary: s) (auto split: option.splits)

lemma coherent_run_defined: "coherent_run atof cs s \<Longrightarrow> \<exists>s'. run atof cs s = Some s'"
  by (induction cs arbitrary: s) (auto split: option.splits)

lemma patched_restorable: "restorable old \<Longrightarrow> restorable (patched nm prog mk old)"
  by (auto simp: restorable_def patched_def Let_def)

lemma patched_id [simp]: "id_num (patched nm prog mk old) = id_num old"
  by (simp add: patched_def Let_def)

lemma patched_back:
  "restorable old \<Longrightarrow>
   patched (name old) (programme old) (mark old) (patched nm prog mk old) = old"
  by (simp add: restorable_def patched_def Let_def)

lemma distinct_ids_mset:
  assumes "mset rs' = mset rs" and "distinct (map id_num rs)"
  shows "distinct (map id_num rs')"
proof -
  from assms(1) have "mset (map id_num rs') = mset (map id_num rs)" by simp
  with assms(2) show ?thesis by (metis mset_eq_imp_distinct_iff)
qed

text \<open>With distinct ids, the record of an id sits at one place.\<close>

lemma unique_split:
  assumes "distinct (map id_num rs)" and "rs = pre @ old # post" and "r \<in> set rs"
    and "id_num r = id_num old"
  shows "r = old" and "id_num old \<notin> id_num ` set pre" and "id_num old \<notin> id_num ` set post"
  using assms by (auto simp: image_iff)

lemma unique_split_eq:
  assumes "distinct (map id_num (pre @ x # post))" and "pre @ x # post = pre' @ y # post'"
    and "id_num x = id_num y"
  shows "pre = pre' \<and> x = y \<and> post = post'"
proof -
  from assms(1,2) have d: "distinct (map id_num (pre' @ y # post'))" by simp
  have "x \<in> set (pre' @ y # post')" using assms(2) by (metis in_set_conv_decomp)
  with d assms(3) have xy: "x = y" by (auto simp: image_iff)
  from assms(1) have nx: "x \<notin> set pre" "x \<notin> set post" by (auto simp: image_iff)
  from d xy have ny: "x \<notin> set pre'" "x \<notin> set post'" by (auto simp: image_iff)
  from assms(2) xy have "pre @ x # post = pre' @ x # post'" by simp
  with append_Cons_eq_iff [OF nx, of pre' post'] have "pre = pre' \<and> post = post'"
    by blast
  with xy show ?thesis by simp
qed

lemma wf_frame_upd [simp]:
  "wf (s\<lparr>undoStack := u\<rparr>) as = wf s as"
  "wf (s\<lparr>redoStack := u\<rparr>) as = wf s as"
  "wf (s\<lparr>dbModified := b\<rparr>) as = wf s as"
  "wf (s\<lparr>out := ms\<rparr>) as = wf s as"
  "wf (say m s) as = wf s as"
  by (simp_all add: wf_def say_def)

lemma sound_frame_upd [simp]:
  "sound (s\<lparr>undoStack := u\<rparr>) rs = sound s rs"
  "sound (s\<lparr>redoStack := u\<rparr>) rs = sound s rs"
  "sound (s\<lparr>dbModified := b\<rparr>) rs = sound s rs"
  "sound (s\<lparr>out := ms\<rparr>) rs = sound s rs"
  "sound (say m s) rs = sound s rs"
  by (simp_all add: sound_def say_def)

lemma findNode_frame_upd [simp]:
  "findNode (s\<lparr>undoStack := u\<rparr>) i = findNode s i"
  "findNode (s\<lparr>redoStack := u\<rparr>) i = findNode s i"
  by (simp_all add: findNode_def Let_def)

lemma coherent_at_frame_upd [simp]:
  "coherent_at (s\<lparr>undoStack := u\<rparr>) i = coherent_at s i"
  "coherent_at (s\<lparr>redoStack := u\<rparr>) i = coherent_at s i"
  by (simp_all add: coherent_at_def split: option.splits)

lemma frame_upd [simp]:
  "frame (s\<lparr>undoStack := u\<rparr>) = frame s"
  "frame (s\<lparr>redoStack := u\<rparr>) = frame s"
  "frame (s\<lparr>out := ms\<rparr>) = frame s"
  "frame (say m s) = frame s"
  by (simp_all add: frame_def say_def)

lemma undo_INSERT_OP:
  assumes top: "undoStack s = INSERT_OP r # below" and "sound s rs"
    and coh: "coherent_at s (id_num r)" and split: "rs = pre @ x # post"
    and ids: "id_num x = id_num r" "id_num r \<notin> id_num ` set pre" "id_num r \<notin> id_num ` set post"
    and run: "undo atof s = Some s'"
  shows "sound s' (pre @ post) \<and> history s' = (below, INSERT_OP r # redoStack s) \<and> frame s' = frame s"
proof -
  let ?s0 = "s\<lparr>undoStack := below\<rparr>"
  from run top obtain k t where del: "deleteDB (id_num r) True True ?s0 = Some (k, t)"
    and s': "s' = (say (UndidInsert (id_num r)) t)\<lparr>redoStack := INSERT_OP r # redoStack t\<rparr>"
    by (auto simp: undo_def say_def split: bind_splits)
  from assms(2) have s0: "sound ?s0 rs" by simp
  from coh have c0: "coherent_at ?s0 (id_num r)" by simp
  from sound_delete [OF s0 c0 split ids(2) ids(1) ids(3) del]
  have "sound t (pre @ post)" "history t = history ?s0" "frame t = frame ?s0" by simp_all
  with s' show ?thesis by (simp add: history_def say_def)
qed

lemma undo_UPDATE_OP:
  assumes top: "undoStack s = UPDATE_OP old new # below" and "sound s rs"
    and coh: "coherent_at s (id_num old)" and split: "rs = pre @ x # post"
    and ids: "id_num x = id_num old" "id_num old \<notin> id_num ` set pre"
    and run: "undo atof s = Some s'"
  shows "sound s' (pre @ patched (name old) (programme old) (mark old) x # post) \<and>
         history s' = (below, UPDATE_OP old new # redoStack s) \<and> frame s' = frame s"
proof -
  let ?s0 = "s\<lparr>undoStack := below\<rparr>"
  from run top obtain t
    where upd: "updateDB (id_num old) (name old) (programme old) (mark old) True ?s0 = Some t"
    and s': "s' = (say (UndidUpdate (id_num new)) t)\<lparr>redoStack := UPDATE_OP old new # redoStack t\<rparr>"
    by (auto simp: undo_def say_def split: bind_splits)
  from assms(2) have s0: "sound ?s0 rs" by simp
  from coh have c0: "coherent_at ?s0 (id_num old)" by simp
  from sound_update [OF s0 c0 split ids(2) ids(1) upd]
  have "sound t (pre @ patched (name old) (programme old) (mark old) x # post)"
    "history t = history ?s0" "frame t = frame ?s0" by simp_all
  with s' show ?thesis by (simp add: history_def say_def)
qed

lemma undo_DELETE_OP:
  assumes top: "undoStack s = DELETE_OP old # below" and "sound s rs"
    and coh: "coherent_at s (id_num old)" and absent: "id_num old \<notin> id_num ` set rs"
    and run: "undo atof s = Some s'"
  shows "sound s' (rs @ [old]) \<and> history s' = (below, DELETE_OP old # redoStack s) \<and>
         frame s' = frame s"
proof -
  let ?s0 = "s\<lparr>undoStack := below\<rparr>"
  from run top obtain t
    where ins: "insertDB (id_num old) (name old) (programme old) (mark old) True ?s0 = Some t"
    and s': "s' = (say (UndidDelete (id_num old)) t)\<lparr>redoStack := DELETE_OP old # redoStack t\<rparr>"
    by (auto simp: undo_def say_def split: bind_splits)
  from assms(2) have s0: "sound ?s0 rs" by simp
  from coh have c0: "coherent_at ?s0 (id_num old)" by simp
  have "\<lparr>id_num = id_num old, name = name old, programme = programme old, mark = mark old\<rparr> = old"
    by simp
  with sound_insert [OF s0 c0 absent ins]
  have "sound t (rs @ [old])" "history t = history ?s0" "frame t = frame ?s0" by simp_all
  with s' show ?thesis by (simp add: history_def say_def)
qed

lemma sound_present:
  assumes "sound s rs" and "coherent_at s i" and "findNode s i \<noteq> Some None"
  shows "\<exists>pre old post. rs = pre @ old # post \<and> id_num old = i \<and> i \<notin> id_num ` set pre"
  using coherent_absent [OF assms(1,2)] assms(3) first_with_id by blast

text \<open>
  What \<open>k\<close> undos after \<open>k\<close> mutations do bring back, on the runs that the defects of
  \<^verbatim>\<open>findNode\<close> and \<^verbatim>\<open>hashRemove\<close> and the skipped empty fields do not touch: the
  records as a multiset, and in their order when nothing is deleted. The code does not
  keep a run coherent; the hypothesis restricts the lemma to the runs that are.
\<close>

lemma undo_all_aux:
  assumes "sound s rs" and "distinct (map id_num rs)" and "\<forall>r\<in>set rs. restorable r"
    and "\<forall>c\<in>set ms. mutation c"
    and "coherent_run atof (ms @ replicate (length ms) UNDO) s"
  shows "\<exists>s' rs'. run atof (ms @ replicate (length ms) UNDO) s = Some s' \<and> sound s' rs' \<and>
           mset rs' = mset rs \<and> ((\<forall>c\<in>set ms. \<not> is_delete c) \<longrightarrow> rs' = rs) \<and>
           undoStack s' = undoStack s"
  using assms
proof (induction ms arbitrary: s rs)
  case Nil
  then show ?case by auto
next
  case (Cons c ms)
  let ?mid = "ms @ replicate (length ms) UNDO"
  have cmds: "(c # ms) @ replicate (length (c # ms)) UNDO = c # (?mid @ [UNDO])"
    by (simp add: replicate_append_same)
  from Cons.prems(5) obtain s1 where ok: "lookup_ok c s" and e1: "exec atof c s = Some s1"
    and cr1: "coherent_run atof (?mid @ [UNDO]) s1"
    unfolding cmds by (auto split: option.splits)
  from cr1 coherent_run_append [of atof ?mid "[UNDO]" s1]
  have cm: "coherent_run atof ?mid s1"
    and "case run atof ?mid s1 of None \<Rightarrow> False | Some s' \<Rightarrow> coherent_run atof [UNDO] s'"
    by blast+
  then obtain s2 where r2: "run atof ?mid s1 = Some s2" and cu: "coherent_run atof [UNDO] s2"
    by (cases "run atof ?mid s1") auto
  from cu have lu: "lookup_ok UNDO s2" by simp
  from cu obtain s3 where u3: "undo atof s2 = Some s3"
    by (cases "undo atof s2") auto
  have "run atof (?mid @ [UNDO]) s1 = Some s3"
    using run_append [of atof ?mid "[UNDO]" s1] r2 u3 by simp
  with e1 have total: "run atof ((c # ms) @ replicate (length (c # ms)) UNDO) s = Some s3"
    unfolding cmds by simp
  from Cons.prems(4) have muts: "\<forall>c\<in>set ms. mutation c" and mc: "mutation c" by auto
  note IH = Cons.IH [OF _ _ _ muts cm]
  show ?case
  proof (cases c)
    case (INSERT i nm prog mk)
    define r where "r = \<lparr>id_num = i, name = nm, programme = prog, mark = mk\<rparr>"
    from ok INSERT have coh: "coherent_at s i" and nf: "findNode s i = Some None" by auto
    from coherent_absent [OF Cons.prems(1) coh] nf have absent: "i \<notin> id_num ` set rs" by simp
    from e1 INSERT have ins: "insertDB i nm prog mk False s = Some s1" by simp
    from sound_insert [OF Cons.prems(1) coh absent ins]
    have s1: "sound s1 (rs @ [r])" and h1: "history s1 = (INSERT_OP r # undoStack s, [])"
      by (simp_all add: r_def)
    from absent Cons.prems(2) have d1: "distinct (map id_num (rs @ [r]))"
      by (auto simp: r_def)
    from mc INSERT Cons.prems(3) have rest1: "\<forall>x\<in>set (rs @ [r]). restorable x"
      by (auto simp: restorable_def r_def)
    from IH [OF s1 d1 rest1] r2 obtain rs2 where s2: "sound s2 rs2"
      and m2: "mset rs2 = mset (rs @ [r])"
      and o2: "(\<forall>c\<in>set ms. \<not> is_delete c) \<longrightarrow> rs2 = rs @ [r]"
      and u2: "undoStack s2 = undoStack s1"
      by auto
    from u2 h1 have top: "undoStack s2 = INSERT_OP r # undoStack s" by (simp add: history_def)
    from lu top have coh2: "coherent_at s2 (id_num r)" by simp
    from distinct_ids_mset [OF m2 d1] have d2: "distinct (map id_num rs2)" .
    from m2 have "r \<in> set rs2" by (metis in_set_conv_decomp mset_eq_setD)
    then obtain pre post where split: "rs2 = pre @ r # post"
      by (auto simp: in_set_conv_decomp)
    from d2 split have np: "id_num r \<notin> id_num ` set pre" "id_num r \<notin> id_num ` set post"
      by auto
    from undo_INSERT_OP [OF top s2 coh2 split refl np u3]
    have s3: "sound s3 (pre @ post)" and h3: "history s3 = (undoStack s, INSERT_OP r # redoStack s2)"
      by auto
    from m2 split have "mset (pre @ post) = mset rs" by simp
    moreover have "pre @ post = rs" if "\<forall>c\<in>set (c # ms). \<not> is_delete c"
    proof -
      from that o2 split have "pre @ r # post = rs @ r # []" by simp
      from unique_split_eq [OF _ this] d2 split show ?thesis by auto
    qed
    ultimately show ?thesis
      using total s3 h3 by (auto simp: history_def)
  next
    case (UPDATE i nm prog mk)
    from ok UPDATE have coh: "coherent_at s i" and f: "findNode s i \<noteq> Some None" by auto
    from sound_present [OF Cons.prems(1) coh f] obtain pre old post
      where split: "rs = pre @ old # post" and old: "id_num old = i"
      and np: "i \<notin> id_num ` set pre" by blast
    let ?new = "patched nm prog mk old"
    from e1 UPDATE have upd: "updateDB i nm prog mk False s = Some s1" by simp
    from sound_update [OF Cons.prems(1) coh split np old upd]
    have s1: "sound s1 (pre @ ?new # post)"
      and h1: "history s1 = (UPDATE_OP old ?new # undoStack s, [])"
      by simp_all
    from Cons.prems(2) split have d1: "distinct (map id_num (pre @ ?new # post))" by simp
    from Cons.prems(3) split have ro: "restorable old" by simp
    with Cons.prems(3) split have rest1: "\<forall>x\<in>set (pre @ ?new # post). restorable x"
      by (auto intro: patched_restorable)
    from IH [OF s1 d1 rest1] r2 obtain rs2 where s2: "sound s2 rs2"
      and m2: "mset rs2 = mset (pre @ ?new # post)"
      and o2: "(\<forall>c\<in>set ms. \<not> is_delete c) \<longrightarrow> rs2 = pre @ ?new # post"
      and u2: "undoStack s2 = undoStack s1"
      by auto
    from u2 h1 have top: "undoStack s2 = UPDATE_OP old ?new # undoStack s"
      by (simp add: history_def)
    from lu top have coh2: "coherent_at s2 (id_num old)" by simp
    from distinct_ids_mset [OF m2 d1] have d2: "distinct (map id_num rs2)" .
    from m2 have "?new \<in> set rs2" by (metis in_set_conv_decomp mset_eq_setD)
    then obtain pre2 post2 where split2: "rs2 = pre2 @ ?new # post2"
      by (auto simp: in_set_conv_decomp)
    from d2 split2 have np2: "id_num old \<notin> id_num ` set pre2" by auto
    from undo_UPDATE_OP [OF top s2 coh2 split2 _ np2 u3] patched_back [OF ro]
    have s3: "sound s3 (pre2 @ old # post2)"
      and h3: "history s3 = (undoStack s, UPDATE_OP old ?new # redoStack s2)"
      by auto
    from m2 split2 split have "mset (pre2 @ old # post2) = mset rs" by simp
    moreover have "pre2 @ old # post2 = rs" if "\<forall>c\<in>set (c # ms). \<not> is_delete c"
    proof -
      from that o2 split2 have "pre2 @ ?new # post2 = pre @ ?new # post" by simp
      from unique_split_eq [OF _ this] d2 split2 split show ?thesis by auto
    qed
    ultimately show ?thesis
      using total s3 h3 by (auto simp: history_def)
  next
    case (DELETE i)
    from ok DELETE have coh: "coherent_at s i" and f: "findNode s i \<noteq> Some None" by auto
    from sound_present [OF Cons.prems(1) coh f] obtain pre old post
      where split: "rs = pre @ old # post" and old: "id_num old = i"
      and np: "i \<notin> id_num ` set pre" by blast
    from Cons.prems(2) split old have npost: "i \<notin> id_num ` set post" by auto
    from e1 DELETE obtain k where del: "deleteDB i True False s = Some (k, s1)" by auto
    from sound_delete [OF Cons.prems(1) coh split np old npost del]
    have s1: "sound s1 (pre @ post)" and h1: "history s1 = (DELETE_OP old # undoStack s, [])"
      by simp_all
    from Cons.prems(2) split have d1: "distinct (map id_num (pre @ post))" by simp
    from Cons.prems(3) split have rest1: "\<forall>x\<in>set (pre @ post). restorable x" by simp
    from IH [OF s1 d1 rest1] r2 obtain rs2 where s2: "sound s2 rs2"
      and m2: "mset rs2 = mset (pre @ post)" and u2: "undoStack s2 = undoStack s1"
      by auto
    from u2 h1 have top: "undoStack s2 = DELETE_OP old # undoStack s" by (simp add: history_def)
    from lu top have coh2: "coherent_at s2 (id_num old)" by simp
    from m2 have "set rs2 = set (pre @ post)" by (rule mset_eq_setD)
    with np npost old have absent: "id_num old \<notin> id_num ` set rs2" by auto
    from undo_DELETE_OP [OF top s2 coh2 absent u3]
    have s3: "sound s3 (rs2 @ [old])" and h3: "history s3 = (undoStack s, DELETE_OP old # redoStack s2)"
      by auto
    from m2 split have "mset (rs2 @ [old]) = mset rs" by simp
    with total s3 h3 DELETE show ?thesis by (auto simp: history_def)
  next
    case UNDO
    with mc show ?thesis by simp
  next
    case REDO
    with mc show ?thesis by simp
  qed
qed

section \<open>Loading\<close>

lemma load_loop_file_records:
  "load_loop atof unread s =
     (case file_records atof unread of None \<Rightarrow> None | Some rs \<Rightarrow> append_all rs s)"
proof (induction atof unread s rule: load_loop.induct)
  case (1 atof unread s)
  show ?case
  proof (cases "unread = []")
    case True
    then show ?thesis by (simp add: load_loop.simps file_records.simps)
  next
    case False
    define line where "line = strip_line (fst (fgets (MAX_LINE - 1) unread))"
    define rest where "rest = snd (fgets (MAX_LINE - 1) unread)"
    show ?thesis
    proof (cases "skip_line line")
      case True
      with False "1.IH"(1) [OF False line_def rest_def True] show ?thesis
        by (simp add: load_loop.simps [of atof unread] file_records.simps [of atof unread]
            line_def rest_def Let_def)
    next
      case noskip: False
      show ?thesis
      proof (cases "parse_record atof line")
        case None
        with False noskip show ?thesis
          unfolding line_def rest_def
          by (simp add: load_loop.simps [of atof unread] file_records.simps [of atof unread]
              Let_def)
      next
        case (Some r)
        have IH: "load_loop atof rest s' =
            (case file_records atof rest of None \<Rightarrow> None | Some rs \<Rightarrow> append_all rs s')"
          if "append_node r s = Some s'" for s'
          by (rule "1.IH"(2) [OF False line_def rest_def noskip Some that])
        have "load_loop atof unread s = append_node r s \<bind> load_loop atof rest"
          using False noskip Some unfolding line_def rest_def
          by (simp add: load_loop.simps [of atof unread] Let_def)
        also have "\<dots> = (case file_records atof rest of None \<Rightarrow> None
            | Some rs \<Rightarrow> append_all (r # rs) s)"
          using IH by (cases "append_node r s"; cases "file_records atof rest") auto
        also have "\<dots> = (case file_records atof unread of None \<Rightarrow> None
            | Some rs \<Rightarrow> append_all rs s)"
          using False noskip Some unfolding line_def rest_def
          by (simp add: file_records.simps [of atof unread] Let_def split: option.splits)
        finally show ?thesis .
      qed
    qed
  qed
qed

lemma append_node_loadable: "append_node r s = Some s' \<Longrightarrow> loadable r"
  by (auto simp: append_node_def hashInsert_def loadable_def Let_def
      split: if_splits option.splits bind_splits)

lemma append_all_loadable: "append_all rs s = Some s' \<Longrightarrow> \<forall>r\<in>set rs. loadable r"
  by (induction rs arbitrary: s) (auto split: bind_splits dest: append_node_loadable)

lemma append_all_sound:
  assumes "sound s rs" and "\<forall>r\<in>set new. loadable r"
  shows "\<exists>s'. append_all new s = Some s' \<and> sound s' (rs @ new) \<and> history s' = history s \<and>
           frame s' = frame s \<and> out s' = out s \<and> dbModified s' = dbModified s"
  using assms
proof (induction new arbitrary: s rs)
  case Nil
  then show ?case by simp
next
  case (Cons r new)
  from Cons.prems(1) obtain as where wf: "wf s as" and rs: "recs_of (heap s) as = rs"
    by (auto simp: sound_def)
  from Cons.prems(2) have "loadable r" by simp
  with append_node_wf [OF wf, of r] obtain s1 where s1: "append_node r s = Some s1"
    and wf1: "wf s1 (as @ [fresh s])"
    and recs1: "recs_of (heap s1) (as @ [fresh s]) = recs_of (heap s) as @ [r]"
    and same: "history s1 = history s" "frame s1 = frame s" "out s1 = out s"
      "dbModified s1 = dbModified s"
    by (auto simp: loadable_def)
  from wf1 recs1 rs have "sound s1 (rs @ [r])" by (auto simp: sound_def)
  from Cons.IH [OF this] Cons.prems(2) obtain s' where "append_all new s1 = Some s'"
    "sound s' ((rs @ [r]) @ new)" "history s' = history s1" "frame s' = frame s1"
    "out s' = out s1" "dbModified s' = dbModified s1"
    by auto
  with s1 same show ?case by simp
qed

lemma freeDB_sound:
  assumes "sound s rs"
  shows "freeDB s = Some (s\<lparr>heap := (\<lambda>_. None), head := None\<rparr>)"
    and "sound (s\<lparr>heap := (\<lambda>_. None), head := None\<rparr>) []"
proof -
  from assms obtain as where wf: "wf s as" by (auto simp: sound_def)
  then have "chain (heap s) (head s) as" and live: "\<forall>a. heap s a \<noteq> None \<longrightarrow> a \<in> set as"
    by (auto simp: wf_def)
  then have "freeDB_loop (head s) (heap s) = Some (\<lambda>a. if a \<in> set as then None else heap s a)"
    by (simp add: freeDB_loop_chain)
  moreover have "(\<lambda>a. if a \<in> set as then None else heap s a) = (\<lambda>_. None)"
    using live by (auto simp: fun_eq_iff)
  ultimately show "freeDB s = Some (s\<lparr>heap := (\<lambda>_. None), head := None\<rparr>)"
    by (simp add: freeDB_def)
  have "wf (s\<lparr>heap := (\<lambda>_. None), head := None\<rparr>) []"
    by (simp add: wf_def)
  then show "sound (s\<lparr>heap := (\<lambda>_. None), head := None\<rparr>) []"
    by (auto simp: sound_def recs_of_def)
qed

lemma sound_hashTable_upd [simp]: "sound (s\<lparr>hashTable := t\<rparr>) rs = sound s rs"
  by (simp add: sound_def wf_def)

lemma sound_dbLoaded_upd [simp]: "sound (s\<lparr>dbLoaded := b\<rparr>) rs = sound s rs"
  by (simp add: sound_def wf_def)

lemma loadDB_runs:
  assumes "sound s rs" and "files s filename = Some bytes"
    and "file_records atof bytes = Some new" and "\<forall>r\<in>set new. loadable r"
  shows "\<exists>t. loadDB atof filename s = Some t \<and> sound t new \<and> history t = history s \<and>
           files t = files s \<and> writable t = writable s \<and> dbLoaded t \<and>
           dbModified t = dbModified s \<and> out t = out s @ [SuccessfullyOpened]"
proof -
  let ?s2 = "s\<lparr>heap := (\<lambda>_. None), head := None, hashTable := (\<lambda>_. None)\<rparr>"
  from freeDB_sound [OF assms(1)] have free: "freeDB s = Some (s\<lparr>heap := (\<lambda>_. None), head := None\<rparr>)"
    and "sound ?s2 []" by simp_all
  from append_all_sound [OF this(2) assms(4)] obtain s3 where s3: "append_all new ?s2 = Some s3"
    and props: "sound s3 new" "history s3 = history s" "frame s3 = frame s" "out s3 = out s"
      "dbModified s3 = dbModified s"
    by (auto simp: history_def frame_def)
  from s3 assms(3) have "load_loop atof bytes ?s2 = Some s3"
    by (simp add: load_loop_file_records)
  with free assms(2) have "loadDB atof filename s = Some (say SuccessfullyOpened (s3\<lparr>dbLoaded := True\<rparr>))"
    by (simp add: loadDB_def)
  with props show ?thesis
    by (auto simp: say_def history_def frame_def)
qed

lemma loadDB_returned:
  assumes "sound s rs" and "files s filename = Some bytes" and "loadDB atof filename s = Some t"
  shows "\<exists>new. file_records atof bytes = Some new \<and> (\<forall>r\<in>set new. loadable r) \<and> sound t new"
proof -
  let ?s2 = "s\<lparr>heap := (\<lambda>_. None), head := None, hashTable := (\<lambda>_. None)\<rparr>"
  from freeDB_sound [OF assms(1)] have free: "freeDB s = Some (s\<lparr>heap := (\<lambda>_. None), head := None\<rparr>)"
    and s2: "sound ?s2 []" by simp_all
  from assms(2,3) free obtain s3 where l: "load_loop atof bytes ?s2 = Some s3"
    and t: "t = say SuccessfullyOpened (s3\<lparr>dbLoaded := True\<rparr>)"
    by (auto simp: loadDB_def split: bind_splits)
  from l obtain new where fr: "file_records atof bytes = Some new" and a: "append_all new ?s2 = Some s3"
    by (auto simp: load_loop_file_records split: option.splits)
  from append_all_loadable [OF a] have ld: "\<forall>r\<in>set new. loadable r" .
  from append_all_sound [OF s2 ld] a have "sound s3 new" by auto
  with fr ld t show ?thesis by simp
qed

lemma loadDB_missing:
  assumes "sound s rs" and "files s filename = None"
  shows "loadDB atof filename s =
           Some (s\<lparr>heap := (\<lambda>_. None), head := None, hashTable := (\<lambda>_. None),
                   dbLoaded := False, out := out s @ [CouldNotOpen filename]\<rparr>)"
  using freeDB_sound(1) [OF assms(1)] assms(2) by (simp add: loadDB_def say_def)

lemma loadDB_sound:
  assumes "sound s rs" and "loadDB atof filename s = Some t"
  shows "\<exists>new. sound t new \<and> history t = history s \<and> files t = files s"
proof (cases "files s filename")
  case None
  from loadDB_missing [OF assms(1) None, of atof] assms(2) freeDB_sound(2) [OF assms(1)]
  show ?thesis by (auto simp: history_def)
next
  case (Some bytes)
  from loadDB_returned [OF assms(1) Some assms(2)] obtain new
    where new: "file_records atof bytes = Some new" "\<forall>r\<in>set new. loadable r" "sound t new"
    by blast
  from loadDB_runs [OF assms(1) Some new(1,2)] assms(2) new(3) show ?thesis by auto
qed


section \<open>Undo, then redo\<close>

lemma redo_INSERT_OP:
  assumes top: "redoStack s = INSERT_OP r # below" and "sound s rs"
    and coh: "coherent_at s (id_num r)" and absent: "id_num r \<notin> id_num ` set rs"
    and run: "redo atof s = Some s'"
  shows "sound s' (rs @ [r]) \<and> history s' = (INSERT_OP r # undoStack s, below) \<and>
         frame s' = frame s"
proof -
  let ?s0 = "s\<lparr>redoStack := below\<rparr>"
  from run top obtain t
    where ins: "insertDB (id_num r) (name r) (programme r) (mark r) True ?s0 = Some t"
    and s': "s' = (say (RedidInsert (id_num r)) t)\<lparr>undoStack := INSERT_OP r # undoStack t\<rparr>"
    by (auto simp: redo_def say_def split: bind_splits)
  from assms(2) have s0: "sound ?s0 rs" by simp
  from coh have c0: "coherent_at ?s0 (id_num r)" by simp
  have "\<lparr>id_num = id_num r, name = name r, programme = programme r, mark = mark r\<rparr> = r"
    by simp
  with sound_insert [OF s0 c0 absent ins]
  have "sound t (rs @ [r])" "history t = history ?s0" "frame t = frame ?s0" by simp_all
  with s' show ?thesis by (simp add: history_def say_def)
qed

lemma redo_UPDATE_OP:
  assumes top: "redoStack s = UPDATE_OP old new # below" and "sound s rs"
    and coh: "coherent_at s (id_num new)" and split: "rs = pre @ x # post"
    and ids: "id_num x = id_num new" "id_num new \<notin> id_num ` set pre"
    and run: "redo atof s = Some s'"
  shows "sound s' (pre @ patched (name new) (programme new) (mark new) x # post) \<and>
         history s' = (UPDATE_OP old new # undoStack s, below) \<and> frame s' = frame s"
proof -
  let ?s0 = "s\<lparr>redoStack := below\<rparr>"
  from run top obtain t
    where upd: "updateDB (id_num new) (name new) (programme new) (mark new) True ?s0 = Some t"
    and s': "s' = (say (RedidUpdate (id_num new)) t)\<lparr>undoStack := UPDATE_OP old new # undoStack t\<rparr>"
    by (auto simp: redo_def say_def split: bind_splits)
  from assms(2) have s0: "sound ?s0 rs" by simp
  from coh have c0: "coherent_at ?s0 (id_num new)" by simp
  from sound_update [OF s0 c0 split ids(2) ids(1) upd]
  have "sound t (pre @ patched (name new) (programme new) (mark new) x # post)"
    "history t = history ?s0" "frame t = frame ?s0" by simp_all
  with s' show ?thesis by (simp add: history_def say_def)
qed

lemma redo_DELETE_OP:
  assumes top: "redoStack s = DELETE_OP old # below" and "sound s rs"
    and coh: "coherent_at s (id_num old)" and split: "rs = pre @ x # post"
    and ids: "id_num x = id_num old" "id_num old \<notin> id_num ` set pre"
      "id_num old \<notin> id_num ` set post"
    and run: "redo atof s = Some s'"
  shows "sound s' (pre @ post) \<and> history s' = (DELETE_OP old # undoStack s, below) \<and>
         frame s' = frame s"
proof -
  let ?s0 = "s\<lparr>redoStack := below\<rparr>"
  from run top obtain k t where del: "deleteDB (id_num old) True True ?s0 = Some (k, t)"
    and s': "s' = (say (RedidDelete (id_num old)) t)\<lparr>undoStack := DELETE_OP old # undoStack t\<rparr>"
    by (auto simp: redo_def say_def split: bind_splits)
  from assms(2) have s0: "sound ?s0 rs" by simp
  from coh have c0: "coherent_at ?s0 (id_num old)" by simp
  from sound_delete [OF s0 c0 split ids(2) ids(1) ids(3) del]
  have "sound t (pre @ post)" "history t = history ?s0" "frame t = frame ?s0" by simp_all
  with s' show ?thesis by (simp add: history_def say_def)
qed

lemma undo_RESTORE_OP:
  assumes top: "undoStack s = RESTORE_OP # below" and "sound s rs"
    and run: "undo atof s = Some s'"
  shows "\<exists>rs1. sound s' rs1 \<and> history s' = (below, RESTORE_OP # redoStack s) \<and>
           files s' = files s"
proof -
  let ?s0 = "s\<lparr>undoStack := below\<rparr>"
  from run top obtain t where load: "loadDB atof primary_path ?s0 = Some t"
    and s': "s' = (say UndidRestore t)\<lparr>redoStack := RESTORE_OP # redoStack t\<rparr>"
    by (auto simp: undo_def say_def split: bind_splits)
  from assms(2) have s0: "sound ?s0 rs" by simp
  from loadDB_sound [OF s0 load] obtain new where "sound t new" "history t = history ?s0"
    "files t = files ?s0" by blast
  with s' show ?thesis by (auto simp: history_def say_def)
qed

lemma redo_RESTORE_OP:
  assumes top: "redoStack s = RESTORE_OP # below" and "sound s rs"
    and bk: "files s backup_path = Some bytes" "file_records atof bytes = Some new"
      "\<forall>r\<in>set new. loadable r"
  shows "\<exists>s'. redo atof s = Some s' \<and> sound s' new \<and>
           history s' = (RESTORE_OP # undoStack s, below)"
proof -
  let ?s0 = "s\<lparr>redoStack := below\<rparr>"
  from assms(2) have s0: "sound ?s0 rs" by simp
  from bk(1) have "files ?s0 backup_path = Some bytes" by simp
  from loadDB_runs [OF s0 this bk(2,3)] obtain t where "loadDB atof backup_path ?s0 = Some t"
    "sound t new" "history t = history ?s0" by blast
  with top bk(1) show ?thesis
    by (simp add: redo_def restoreDB_def say_def history_def)
qed

lemma last_split:
  assumes "rs \<noteq> []" and "distinct (map id_num rs)"
  shows "rs = butlast rs @ last rs # [] \<and> id_num (last rs) \<notin> id_num ` set (butlast rs)"
proof -
  from assms(1) have rs: "rs = butlast rs @ [last rs]" by simp
  with assms(2) have "distinct (map id_num (butlast rs @ [last rs]))" by simp
  then have "id_num (last rs) \<notin> id_num ` set (butlast rs)" by auto
  with rs show ?thesis by simp
qed

lemma patched_again:
  assumes "name new = [] \<longrightarrow> name old = []" and "programme new = [] \<longrightarrow> programme old = []"
    and "mark new < 0 \<longrightarrow> mark old < 0"
  shows "patched (name new) (programme new) (mark new)
           (patched (name old) (programme old) (mark old) new) = new"
  using assms by (cases new) (auto simp: patched_def Let_def)

text \<open>
  What \<^verbatim>\<open>undo\<close> followed by \<^verbatim>\<open>redo\<close> leaves as it was, when the action on top of the
  undo stack is in effect and both lookups are coherent: the record sequence and both
  stacks. Nothing follows for \<^verbatim>\<open>findNode\<close> afterwards.
\<close>

lemma undo_redo_aux:
  assumes s: "sound s rs" and d: "distinct (map id_num rs)"
    and top: "undoStack s = action # below"
    and eff: "in_effect atof action s rs"
    and coh: "coherent_run atof [UNDO, REDO] s"
  shows "\<exists>s'. run atof [UNDO, REDO] s = Some s' \<and> sound s' rs \<and> history s' = history s"
proof -
  from coh top obtain s1 s2 where u: "undo atof s = Some s1" and r: "redo atof s1 = Some s2"
    and l1: "lookup_ok UNDO s" and l2: "lookup_ok REDO s1"
    by (auto split: option.splits)
  then have run: "run atof [UNDO, REDO] s = Some s2" by simp
  show ?thesis
  proof (cases action)
    case (INSERT_OP new)
    with eff have ne: "rs \<noteq> []" and new: "last rs = new" by simp_all
    from last_split [OF ne d] new
    have split: "rs = butlast rs @ new # []" and pre: "id_num new \<notin> id_num ` set (butlast rs)"
      by simp_all
    from l1 top INSERT_OP have c1: "coherent_at s (id_num new)" by simp
    from top INSERT_OP have top1: "undoStack s = INSERT_OP new # below" by simp
    from undo_INSERT_OP [OF top1 s c1 split _ pre _ u]
    have s1: "sound s1 (butlast rs)" and h1: "history s1 = (below, INSERT_OP new # redoStack s)"
      by simp_all
    from h1 have top2: "redoStack s1 = INSERT_OP new # redoStack s" by (simp add: history_def)
    with l2 have c2: "coherent_at s1 (id_num new)" by simp
    from redo_INSERT_OP [OF top2 s1 c2 pre r] h1 split top1
    have "sound s2 rs" "history s2 = history s" by (simp_all add: history_def)
    with run show ?thesis by simp
  next
    case (UPDATE_OP old new)
    with eff have mem: "new \<in> set rs" and id: "id_num old = id_num new"
      and fields: "name new = [] \<longrightarrow> name old = []" "programme new = [] \<longrightarrow> programme old = []"
        "mark new < 0 \<longrightarrow> mark old < 0"
      by simp_all
    from mem obtain pre post where split: "rs = pre @ new # post" by (auto simp: in_set_conv_decomp)
    with d have pre: "id_num new \<notin> id_num ` set pre" by auto
    from top UPDATE_OP have top1: "undoStack s = UPDATE_OP old new # below" by simp
    from l1 top1 have c1: "coherent_at s (id_num old)" by simp
    let ?mid = "patched (name old) (programme old) (mark old) new"
    from undo_UPDATE_OP [OF top1 s c1 split] id pre u
    have s1: "sound s1 (pre @ ?mid # post)"
      and h1: "history s1 = (below, UPDATE_OP old new # redoStack s)"
      by simp_all
    from h1 have top2: "redoStack s1 = UPDATE_OP old new # redoStack s" by (simp add: history_def)
    with l2 have c2: "coherent_at s1 (id_num new)" by simp
    from redo_UPDATE_OP [OF top2 s1 c2 refl _ pre r] patched_again [OF fields] h1 split top1
    have "sound s2 rs" "history s2 = history s" by (simp_all add: history_def)
    with run show ?thesis by simp
  next
    case (DELETE_OP old)
    with eff have absent: "id_num old \<notin> id_num ` set rs" by simp
    from top DELETE_OP have top1: "undoStack s = DELETE_OP old # below" by simp
    from l1 top1 have c1: "coherent_at s (id_num old)" by simp
    from undo_DELETE_OP [OF top1 s c1 absent u]
    have s1: "sound s1 (rs @ [old])" and h1: "history s1 = (below, DELETE_OP old # redoStack s)"
      by simp_all
    from h1 have top2: "redoStack s1 = DELETE_OP old # redoStack s" by (simp add: history_def)
    with l2 have c2: "coherent_at s1 (id_num old)" by simp
    have split: "rs @ [old] = rs @ old # []" by simp
    from redo_DELETE_OP [OF top2 s1 c2 split refl absent _ r] h1 top1
    have "sound s2 rs" "history s2 = history s" by (simp_all add: history_def)
    with run show ?thesis by simp
  next
    case RESTORE_OP
    with eff obtain bytes t where bk: "files s backup_path = Some bytes"
      and load: "loadDB atof backup_path s = Some t" and t: "records t = Some rs"
      by (auto split: option.splits)
    from loadDB_returned [OF s bk load] obtain new
      where new: "file_records atof bytes = Some new" "\<forall>r\<in>set new. loadable r" "sound t new"
      by blast
    from new(3) t have "new = rs" by (simp add: sound_records)
    with new have fr: "file_records atof bytes = Some rs" "\<forall>r\<in>set rs. loadable r" by simp_all
    from top RESTORE_OP have top1: "undoStack s = RESTORE_OP # below" by simp
    from undo_RESTORE_OP [OF top1 s u] obtain rs1 where s1: "sound s1 rs1"
      and h1: "history s1 = (below, RESTORE_OP # redoStack s)" and f1: "files s1 = files s"
      by blast
    from h1 have top2: "redoStack s1 = RESTORE_OP # redoStack s" by (simp add: history_def)
    from f1 bk have bk1: "files s1 backup_path = Some bytes" by simp
    from redo_RESTORE_OP [OF top2 s1 bk1 fr] r h1 top1
    have "sound s2 rs" "history s2 = history s" by (auto simp: history_def)
    with run show ?thesis by simp
  qed
qed


section \<open>Printing and reading the file\<close>

lemma digit_char_digit:
  assumes "n < 10"
  shows "isdigit_c (digit_char n)" and "of_char (digit_char n) = (48::int) + int n"
proof -
  from assms have "n \<in> {0, 1, 2, 3, 4, 5, 6, 7, 8, 9}" by auto
  then show "isdigit_c (digit_char n)" and "of_char (digit_char n) = (48::int) + int n"
    by (auto simp: digit_char_def isdigit_c_def)
qed

lemma show_nat_digits: "\<forall>c\<in>set (show_nat n). isdigit_c c"
proof (induction n rule: show_nat.induct)
  case (1 n)
  show ?case
  proof (cases "n < 10")
    case True
    then show ?thesis by (simp add: show_nat.simps [of n] digit_char_digit)
  next
    case False
    with 1 show ?thesis by (simp add: show_nat.simps [of n] digit_char_digit)
  qed
qed

lemma show_nat_not_Nil: "show_nat n \<noteq> []"
  by (simp add: show_nat.simps [of n])

lemma digits_value_show_nat:
  "digits_value acc (show_nat n @ rest) =
     digits_value (acc * 10 ^ length (show_nat n) + int n) rest"
proof (induction n arbitrary: acc rest rule: show_nat.induct)
  case (1 n)
  show ?case
  proof (cases "n < 10")
    case True
    then show ?thesis
      by (simp add: show_nat.simps [of n] digit_char_digit)
  next
    case False
    have d: "n mod 10 < 10" by simp
    from False have "digits_value acc (show_nat n @ rest) =
        digits_value acc (show_nat (n div 10) @ digit_char (n mod 10) # rest)"
      by (simp add: show_nat.simps [of n])
    also have "\<dots> = digits_value (acc * 10 ^ length (show_nat (n div 10)) + int (n div 10))
        (digit_char (n mod 10) # rest)"
      using False by (rule "1.IH")
    also have "\<dots> = digits_value
        ((acc * 10 ^ length (show_nat (n div 10)) + int (n div 10)) * 10 + int (n mod 10)) rest"
      by (simp add: digit_char_digit [OF d])
    also have "(acc * 10 ^ length (show_nat (n div 10)) + int (n div 10)) * 10 + int (n mod 10)
        = acc * 10 ^ length (show_nat n) + int n"
    proof -
      have "int n = int (n div 10) * 10 + int (n mod 10)"
        by (metis div_mult_mod_eq of_nat_add of_nat_mult of_nat_numeral)
      with False show ?thesis by (simp add: show_nat.simps [of n] algebra_simps)
    qed
    finally show ?thesis .
  qed
qed

lemma digits_value_show_nat_0: "digits_value 0 (show_nat n) = int n"
  using digits_value_show_nat [of 0 n "[]"] by simp

lemma digit_not_sign: "isdigit_c c \<Longrightarrow> c \<noteq> CHR ''-'' \<and> c \<noteq> CHR ''+'' \<and> \<not> isspace_c c"
  by (auto simp: isdigit_c_def isspace_c_def TAB_def LF_def CR_def)

lemma atoi_show_int:
  assumes "INT_MIN \<le> i" and "i \<le> INT_MAX"
  shows "atoi (show_int i) = Some i"
proof (cases "i < 0")
  case True
  have "\<not> isspace_c (CHR ''-'')" by (simp add: isspace_c_def TAB_def LF_def CR_def)
  with True assms show ?thesis
    by (simp add: atoi_def show_int_def digits_value_show_nat_0 Let_def)
next
  case False
  obtain c cs where cs: "show_nat (nat i) = c # cs"
    using show_nat_not_Nil [of "nat i"] by (cases "show_nat (nat i)") auto
  with show_nat_digits [of "nat i"] have "isdigit_c c" by simp
  from digit_not_sign [OF this] cs False assms digits_value_show_nat_0 [of "nat i"]
  show ?thesis
    by (simp add: atoi_def show_int_def Let_def)
qed

lemma show_int_chars: "\<forall>c\<in>set (show_int i). isdigit_c c \<or> c = CHR ''-''"
  using show_nat_digits by (auto simp: show_int_def)

lemma show_int_plain: "plain (show_int i)"
  using show_int_chars [of i]
  by (auto simp: plain_def isdigit_c_def TAB_def CR_def LF_def NUL_def)

lemma show_int_not_Nil: "show_int i \<noteq> []"
  by (simp add: show_int_def show_nat_not_Nil)

lemma field_split:
  assumes "plain f"
  shows "takeWhile (\<lambda>c. c \<noteq> TAB) (f @ TAB # rest) = f"
    and "dropWhile (\<lambda>c. c \<noteq> TAB) (f @ TAB # rest) = TAB # rest"
    and "takeWhile (\<lambda>c. c \<noteq> TAB) f = f"
    and "dropWhile (\<lambda>c. c \<noteq> TAB) f = []"
  using assms by (auto simp: plain_def takeWhile_tail dropWhile_append3 )

lemma split_fields_line:
  assumes "plain f0" and "plain f1" and "plain f2" and "plain f3"
  shows "split_fields (Suc (Suc (Suc (Suc 0)))) (f0 @ TAB # f1 @ TAB # f2 @ TAB # f3)
           = [f0, f1, f2, f3]"
  using assms by (simp add: field_split)

lemma parse_record_line:
  assumes "plain f0" and "plain f1" and "plain f2" and "plain f3" and "f0 \<noteq> []"
    and "atoi f0 = Some i"
  shows "parse_record atof (f0 @ TAB # f1 @ TAB # f2 @ TAB # f3) =
           Some \<lparr>id_num = i, name = f1, programme = f2, mark = (if f3 \<noteq> [] then atof f3 else 0)\<rparr>"
  using assms(5,6) unfolding parse_record_def split_fields_line [OF assms(1-4)] by simp

lemma fgets_line:
  assumes "LF \<notin> set l" and "length l < n"
  shows "fgets n (l @ LF # rest) = (l @ [LF], rest)"
  using assms by (induction l arbitrary: n) (auto split: prod.splits)

lemma strip_line_line:
  assumes "one_line l"
  shows "strip_line (l @ [LF]) = l"
proof -
  from assms have "c_str (l @ [LF]) = l @ [LF]"
    by (auto simp: c_str_def one_line_def NUL_def LF_def intro!: takeWhile_eq_all_conv [THEN iffD2])
  moreover from assms have "takeWhile (\<lambda>c. c \<noteq> CR \<and> c \<noteq> LF) (l @ [LF]) = l"
    by (auto simp: one_line_def takeWhile_tail)
  ultimately show ?thesis by (simp add: strip_line_def)
qed

lemma file_records_Nil: "file_records atof [] = Some []"
  by (simp add: file_records.simps)

lemma plain_no_LF: "one_line l \<Longrightarrow> LF \<notin> set l"
  by (auto simp: one_line_def)

lemma file_records_skip:
  assumes "one_line l" and "length l < MAX_LINE - 1" and "skip_line l"
  shows "file_records atof (l @ LF # rest) = file_records atof rest"
  using assms fgets_line [OF plain_no_LF [OF assms(1)] assms(2), of rest]
  by (simp add: file_records.simps [of atof "l @ LF # rest"] strip_line_line)

lemma file_records_line:
  assumes "one_line l" and "length l < MAX_LINE - 1" and "\<not> skip_line l"
  shows "file_records atof (l @ LF # rest) =
           do { r \<leftarrow> parse_record atof l; rs \<leftarrow> file_records atof rest; Some (r # rs) }"
  using assms fgets_line [OF plain_no_LF [OF assms(1)] assms(2), of rest]
  by (simp add: file_records.simps [of atof "l @ LF # rest"] strip_line_line)

lemma plain_append [simp]: "plain (xs @ ys) \<longleftrightarrow> plain xs \<and> plain ys"
  by (auto simp: plain_def)

lemma plain_Cons [simp]: "plain (c # cs) \<longleftrightarrow> c \<noteq> TAB \<and> c \<noteq> CR \<and> c \<noteq> LF \<and> c \<noteq> NUL \<and> plain cs"
  by (auto simp: plain_def)

lemma plain_Nil [simp]: "plain []"
  by (simp add: plain_def)

lemma one_line_append [simp]: "one_line (xs @ ys) \<longleftrightarrow> one_line xs \<and> one_line ys"
  by (auto simp: one_line_def)

lemma one_line_Cons [simp]: "one_line (c # cs) \<longleftrightarrow> c \<noteq> CR \<and> c \<noteq> LF \<and> c \<noteq> NUL \<and> one_line cs"
  by (auto simp: one_line_def)

lemma one_line_Nil [simp]: "one_line []"
  by (simp add: one_line_def)

lemma plain_one_line: "plain l \<Longrightarrow> one_line l"
  by (auto simp: plain_def one_line_def)

lemma file_records_header: "file_records atof (file_header @ rest) = file_records atof rest"
proof -
  have 1: "file_records atof (''Database Name: P4_1-CMS'' @ LF # r) = file_records atof r" for r
    by (rule file_records_skip) (simp_all add: string_eval strstr.simps)
  have 2: "file_records atof (''Authors: P4-1'' @ LF # r) = file_records atof r" for r
    by (rule file_records_skip) (simp_all add: string_eval)
  have 3: "file_records atof ([] @ LF # r) = file_records atof r" for r
    by (rule file_records_skip) (simp_all add: string_eval)
  have 4: "file_records atof (''Table Name: StudentRecords'' @ LF # r) = file_records atof r" for r
    by (rule file_records_skip) (simp_all add: string_eval)
  have 5: "file_records atof (column_header @ LF # r) = file_records atof r" for r
    by (rule file_records_skip) (simp_all add: string_eval)
  have "file_header @ rest = ''Database Name: P4_1-CMS'' @ LF # ''Authors: P4-1'' @ LF # [] @ LF #
      ''Table Name: StudentRecords'' @ LF # column_header @ LF # rest"
    by (simp add: file_header_def)
  then show ?thesis by (simp only: 1 2 3 4 5)
qed

lemma format_line_storable:
  assumes "storable atof fmt1 r"
  shows "format_line fmt1 r = record_line fmt1 r @ [LF]"
proof -
  from assms have "length (record_line fmt1 r @ [LF]) \<le> MAX_LINE - 1"
    by (simp add: storable_def)
  then have "take (MAX_LINE - 1) (record_line fmt1 r @ [LF]) = record_line fmt1 r @ [LF]"
    by (rule take_all)
  then show ?thesis by (simp add: format_line_def record_line_def)
qed

lemma record_line_plain: "storable atof fmt1 r \<Longrightarrow> one_line (record_line fmt1 r)"
  using show_int_plain [of "id_num r"]
  by (simp add: storable_def record_line_def plain_one_line TAB_def CR_def LF_def NUL_def)

lemma parse_record_storable:
  assumes "storable atof fmt1 r"
  shows "parse_record atof (record_line fmt1 r) = Some r"
proof -
  from assms have p: "plain (name r)" "plain (programme r)" "plain (fmt1 (mark r))"
    and m: "fmt1 (mark r) \<noteq> []" "atof (fmt1 (mark r)) = mark r"
    and i: "atoi (show_int (id_num r)) = Some (id_num r)"
    by (simp_all add: storable_def atoi_show_int)
  from parse_record_line [OF show_int_plain p show_int_not_Nil i, of atof] m
  show ?thesis by (simp add: record_line_def)
qed

lemma file_records_storable:
  assumes "\<forall>r\<in>set rs. storable atof fmt1 r"
  shows "file_records atof (concat (map (format_line fmt1) rs)) = Some rs"
  using assms
proof (induction rs)
  case Nil
  then show ?case by (simp add: file_records_Nil)
next
  case (Cons r rs)
  then have r: "storable atof fmt1 r" and IH: "file_records atof (concat (map (format_line fmt1) rs)) = Some rs"
    by simp_all
  from r have "length (record_line fmt1 r) < MAX_LINE - 1" "\<not> skip_line (record_line fmt1 r)"
    by (simp_all add: storable_def)
  from file_records_line [OF record_line_plain [OF r] this, of atof] IH
    parse_record_storable [OF r] format_line_storable [OF r]
  show ?case by simp
qed

lemma file_records_saved:
  assumes "\<forall>r\<in>set rs. storable atof fmt1 r"
  shows "file_records atof (file_header @ concat (map (format_line fmt1) rs)) = Some rs"
  using assms by (simp add: file_records_header file_records_storable)

lemma file_header_no_NUL: "NUL \<notin> set file_header"
  by (simp add: string_eval)

lemma saved_no_NUL:
  assumes "\<forall>r\<in>set rs. storable atof fmt1 r"
  shows "NUL \<notin> set (concat (map (format_line fmt1) rs))"
proof -
  have "NUL \<notin> set (format_line fmt1 r)" if "r \<in> set rs" for r
  proof -
    from that assms have r: "storable atof fmt1 r" by simp
    from record_line_plain [OF r] have "NUL \<notin> set (record_line fmt1 r)" by (auto simp: one_line_def)
    then show ?thesis by (simp add: format_line_storable [OF r] NUL_def LF_def)
  qed
  then show ?thesis by auto
qed

lemma sound_init: "sound (init fs) []"
  by (simp add: sound_def wf_def init_def recs_of_def)

lemma save_loop_sound:
  assumes "sound s rs"
  shows "save_loop fmt1 (heap s) (head s) file_header = Some (saved fmt1 rs)"
proof -
  from assms obtain as where "wf s as" and rs: "recs_of (heap s) as = rs" by (auto simp: sound_def)
  then have "chain (heap s) (head s) as" by (simp add: wf_def)
  from save_loop_chain [OF this] rs show ?thesis by (simp add: saved_def)
qed

lemma c_str_text: "NUL \<notin> set bytes \<Longrightarrow> c_str bytes = bytes"
  by (auto simp: c_str_def takeWhile_eq_all_conv)

lemma saved_not_Nil: "saved fmt1 rs \<noteq> []"
  by (simp add: saved_def file_header_def)

lemma saved_text:
  assumes "\<forall>r\<in>set rs. storable atof fmt1 r"
  shows "NUL \<notin> set (saved fmt1 rs)"
  using saved_no_NUL [OF assms] file_header_no_NUL by (simp add: saved_def)

lemma file_records_of_saved:
  "\<forall>r\<in>set rs. storable atof fmt1 r \<Longrightarrow> file_records atof (saved fmt1 rs) = Some rs"
  by (simp add: saved_def file_records_saved)

lemma storable_loadable: "storable atof fmt1 r \<Longrightarrow> loadable r"
  by (simp add: storable_def)

lemma saveDB_files:
  assumes "sound s rs" and "dbLoaded s" and "writable s primary_path"
    and "text_file (files s primary_path)"
  shows "\<exists>s1. saveDB fmt1 s = Some s1 \<and> files s1 primary_path = Some (saved fmt1 rs)"
proof (cases "files s primary_path")
  case None
  with assms(2,3) save_loop_sound [OF assms(1), of fmt1] show ?thesis
    by (simp add: saveDB_def say_def Let_def)
next
  case (Some bytes)
  with assms(4) have "c_str bytes = bytes" by (simp add: text_file_def c_str_text)
  with Some assms(2,3) save_loop_sound [OF assms(1), of fmt1] show ?thesis
    by (auto simp: saveDB_def say_def Let_def)
qed

section \<open>The example files\<close>

lemmas decimal_eval =
  atof_dec_def decimal_value_def fmt1_dec_def round_half_even_def show_int_def show_nat.simps
  digit_char_def isdigit_c_def isspace_c_def TAB_def LF_def CR_def NUL_def Let_def

lemma show_int_2000001: "show_int 2000001 = ''2000001''"
  by (simp add: decimal_eval)

lemma fmt1_dec_50: "fmt1_dec 50 = ''50.0''"
  by (simp add: decimal_eval)

lemma atof_dec_50: "atof_dec ''50.0'' = 50"
  by (simp add: decimal_eval)

lemma floor_fine: "\<lfloor>(25::rat) / 4\<rfloor> = 6"
  by (rule floor_unique) simp_all

lemma fmt1_dec_fine: "fmt1_dec (5 / 8) = ''0.6''"
  by (simp add: decimal_eval floor_fine)

lemma atof_dec_fine: "atof_dec ''0.6'' = 3 / 5"
  by (simp add: decimal_eval)

lemma fmt1_dec_75: "fmt1_dec 75 = ''75.0''"
  by (simp add: decimal_eval)

lemma atof_dec_75: "atof_dec ''75'' = 75"
  by (simp add: decimal_eval)

lemma atoi_2000001: "atoi ''2000001'' = Some 2000001"
  using atoi_show_int [of 2000001] by (simp add: show_int_2000001 INT_MIN_def INT_MAX_def)

lemma storable_ann: "storable atof_dec fmt1_dec ann"
  by (simp add: storable_def loadable_def record_line_def ann_def show_int_2000001 fmt1_dec_50
      atof_dec_50 hash_def in_table_def TABLE_SIZE_def MAX_NAME_def MAX_PROGRAMME_def string_eval)

lemma file_records_one_line:
  assumes "l = ''2000001'' @ TAB # ''Ann'' @ TAB # ''Cs'' @ TAB # m" and "plain m" and "m \<noteq> []"
    and "length l < MAX_LINE - 1" and "\<not> skip_line l"
  shows "file_records atof (file_header @ l @ [LF]) = Some [ann\<lparr>mark := atof m\<rparr>]"
proof -
  have p: "plain ''2000001''" "plain ''Ann''" "plain ''Cs''"
    by (simp_all add: TAB_def CR_def LF_def NUL_def)
  from assms(1,2) p have "one_line l" by (simp add: plain_one_line TAB_def CR_def LF_def NUL_def)
  from file_records_line [OF this assms(4,5), of atof "[]"]
  have "file_records atof (l @ [LF]) = do { r \<leftarrow> parse_record atof l; Some [r] }"
    by (simp add: file_records_Nil)
  moreover from parse_record_line [OF p assms(2) _ atoi_2000001, of atof] assms(1,3)
  have "parse_record atof l = Some (ann\<lparr>mark := atof m\<rparr>)"
    by (simp add: ann_def)
  ultimately show ?thesis by (simp add: file_records_header)
qed

lemma file_records_fine:
  "file_records atof_dec (file_header @ ''2000001'' @ TAB # ''Ann'' @ TAB # ''Cs'' @ TAB # ''0.6'' @ [LF])
     = Some [ann\<lparr>mark := 3 / 5\<rparr>]"
  using file_records_one_line [OF refl, of "''0.6''" atof_dec]
  by (simp add: atof_dec_fine string_eval)

lemma file_records_hand_written:
  "file_records atof_dec (file_header @ ''2000001'' @ TAB # ''Ann'' @ TAB # ''Cs'' @ TAB # ''75'' @ [LF])
     = Some [ann\<lparr>mark := 75\<rparr>]"
  using file_records_one_line [OF refl, of "''75''" atof_dec]
  by (simp add: atof_dec_75 string_eval)

lemma loadable_ann: "loadable (ann\<lparr>mark := m\<rparr>)"
  by (simp add: loadable_def ann_def hash_def in_table_def TABLE_SIZE_def MAX_NAME_def
      MAX_PROGRAMME_def)

lemma saved_fine:
  "saved fmt1_dec [ann\<lparr>mark := 5 / 8\<rparr>] =
     file_header @ ''2000001'' @ TAB # ''Ann'' @ TAB # ''Cs'' @ TAB # ''0.6'' @ [LF]"
  by (simp add: saved_def format_line_def ann_def show_int_2000001 fmt1_dec_fine MAX_LINE_def)

lemma saved_75:
  "saved fmt1_dec [ann\<lparr>mark := 75\<rparr>] =
     file_header @ ''2000001'' @ TAB # ''Ann'' @ TAB # ''Cs'' @ TAB # ''75.0'' @ [LF]"
  by (simp add: saved_def format_line_def ann_def show_int_2000001 fmt1_dec_75 MAX_LINE_def)

lemma sound_fine_mark: "sound fine_mark [ann\<lparr>mark := 5 / 8\<rparr>]"
proof -
  have "wf fine_mark [0]" by (simp add: wf_def fine_mark_def)
  moreover have "recs_of (heap fine_mark) [0] = [ann\<lparr>mark := 5 / 8\<rparr>]"
    by (simp add: recs_of_def fine_mark_def)
  ultimately show ?thesis by (auto simp: sound_def)
qed

lemma sound_empty_db: "sound empty_db []"
  by (simp add: sound_def wf_def empty_db_def recs_of_def)

section \<open>Claims\<close>

subsection \<open>C1: coherence of the id index\<close>

text \<open>
  C1 states that after every public operation \<^verbatim>\<open>findNode\<close> returns each record of the
  sequence for its id, also when a bucket chains several nodes. The code breaks this:
  \<^verbatim>\<open>hashInsert\<close> chains a bucket through \<^verbatim>\<open>hashNext\<close>, but \<^verbatim>\<open>findNode\<close> walks from the
  bucket head along \<^verbatim>\<open>next\<close>. The ids 2000000 and 2002003 share bucket 1006. After both
  are inserted into an opened empty table, the record sequence holds both, the lookup of
  2002003 returns its node, and the lookup of 2000000 returns \<^verbatim>\<open>NULL\<close>.
\<close>

theorem findNode_misses_chained_record:
  "(insertDB 2000000 ''Ann'' ''Cs'' 50 False empty_db \<bind>
    insertDB 2002003 ''Bob'' ''Cs'' 60 False \<bind>
    (\<lambda>s. Some (map_option (map id_num) (records s), hash 2000000, hash 2002003,
                findNode s 2002003, findNode s 2000000)))
   = Some (Some [2000000, 2002003], 1006, 1006, Some (Some 1), Some None)"
  by (simp add: store_eval empty_db_def)

subsection \<open>C5: pairwise distinct ids\<close>

text \<open>
  C5 states that an insert of an id that already occurs in the sequence always fails and
  leaves the sequence unchanged. The duplicate check of \<^verbatim>\<open>insertDB\<close> is \<^verbatim>\<open>findNode\<close>,
  which misses a record that is chained behind a later one of its bucket (the defect of
  C1). After 2000000 and 2002003, a second insert of 2000000 is accepted: the sequence
  holds the id twice and the program reports three successful inserts.
\<close>

theorem insertDB_accepts_duplicate_id:
  "(insertDB 2000000 ''Ann'' ''Cs'' 50 False empty_db \<bind>
    insertDB 2002003 ''Bob'' ''Cs'' 60 False \<bind>
    insertDB 2000000 ''Cy'' ''Ee'' 70 False \<bind>
    (\<lambda>s. Some (map_option (map id_num) (records s), out s)))
   = Some (Some [2000000, 2002003, 2000000],
           [SuccessfullyOpened, Inserted 2000000, Inserted 2002003, Inserted 2000000])"
  by (simp add: store_eval empty_db_def)

subsection \<open>C3: an update leaves absent fields unchanged\<close>

text \<open>
  C3 states that a user \<^verbatim>\<open>UPDATE\<close> that omits \<^verbatim>\<open>MARK\<close> leaves the mark of the record
  unchanged. \<^verbatim>\<open>updateDB\<close> takes a negative mark for an omitted one, but
  \<^verbatim>\<open>parseCommand\<close> initialises the mark to 0.0 and \<^verbatim>\<open>main\<close> passes that on. For the
  record (2000002, Bob, Ee, 50.0) the command \<^verbatim>\<open>UPDATE ID=2000002 NAME=Alice\<close> sets the
  name and resets the mark to 0.
\<close>

theorem main_UPDATE_without_MARK_resets_mark:
  "(insertDB 2000002 ''Bob'' ''Ee'' 50 False empty_db \<bind>
    main_UPDATE atof ''UPDATE ID=2000002 NAME=Alice'' \<bind> records)
   = Some [\<lparr>id_num = 2000002, name = ''Alice'', programme = ''Ee'', mark = 0\<rparr>]"
  by (simp add: main_UPDATE_def validate_update_command parse_update_name_only store_eval
      empty_db_def)

subsection \<open>C6: stability of the sorted view\<close>

text \<open>
  C6 states that the sorted view keeps records with equal keys in insertion order, for
  both orders, and that the marks 80.0, 80.0, 70.0 of the ids 2000004, 2000005, 2000006
  sorted by mark descending give 2000004, 2000005, 2000006. In ascending order
  \<^verbatim>\<open>mergeSorted\<close> takes the node of the left list on a tie (\<^verbatim>\<open>compare <= 0\<close>); in
  descending order it takes the left node only when \<^verbatim>\<open>compare > 0\<close>, so on a tie the
  node of the right list comes first. The code prints 2000005, 2000004, 2000006.
\<close>

theorem showDBSorted_descending_reverses_tie:
  "(insertDB 2000004 ''A'' ''X'' 80 False empty_db \<bind>
    insertDB 2000005 ''B'' ''X'' 80 False \<bind>
    insertDB 2000006 ''C'' ''X'' 70 False \<bind>
    showDBSorted False False \<bind> (\<lambda>s. Some (last (out s))))
   = Some (SortedListing False False
       [\<lparr>id_num = 2000005, name = ''B'', programme = ''X'', mark = 80\<rparr>,
        \<lparr>id_num = 2000004, name = ''A'', programme = ''X'', mark = 80\<rparr>,
        \<lparr>id_num = 2000006, name = ''C'', programme = ''X'', mark = 70\<rparr>])"
  by (simp add: store_eval empty_db_def showDBSorted_def mergeSort.simps compare_records_def)

subsection \<open>C10: a load leaves the history alone\<close>



subsection \<open>C9: a load that cannot open its file\<close>

text \<open>
  C9 states that a load that fails to open its file keeps the flags and leaves the record
  sequence unchanged. \<^verbatim>\<open>loadDB\<close> frees the list and clears the table before it opens
  the file, and on failure it sets \<^verbatim>\<open>dbLoaded = 0\<close>. Counterexample: the loaded table
  with the record of Ann, and a load of the backup file, which does not exist; afterwards
  the sequence is empty and the store is not loaded.
\<close>

theorem loadDB_failure_counterexample:
  "\<exists>t. loadDB atof_dec backup_path one_record = Some t \<and>
       records one_record = Some [ann] \<and> dbLoaded one_record \<and>
       records t = Some [] \<and> \<not> dbLoaded t"
  by (simp add: loadDB_def freeDB_def freeDB_loop.simps records_def cloneList.simps say_def
      one_record_def header_only_def backup_path_def primary_path_def)

text \<open>
  C9 as amended: if \<^verbatim>\<open>loadDB\<close> cannot open its file, it returns (it does not abort)
  in the state that differs from the well-formed state before the call in this: every
  node is freed and the record sequence is empty, the hash table is cleared, \<open>loaded\<close>
  is false, and the message that the file could not be opened is printed. The flag
  \<open>modified\<close>, the undo and redo stacks and the files are as before.
\<close>

theorem loadDB_failure:
  assumes "wf s as" and "files s filename = None"
  shows "loadDB atof filename s =
           Some (s\<lparr>heap := (\<lambda>_. None), head := None, hashTable := (\<lambda>_. None),
                   dbLoaded := False, out := out s @ [CouldNotOpen filename]\<rparr>)"
proof -
  from assms(1) have "chain (heap s) (head s) as" and live: "\<forall>a. heap s a \<noteq> None \<longrightarrow> a \<in> set as"
    by (auto simp: wf_def)
  then have "freeDB_loop (head s) (heap s) = Some (\<lambda>a. if a \<in> set as then None else heap s a)"
    by (simp add: freeDB_loop_chain)
  moreover have "(\<lambda>a. if a \<in> set as then None else heap s a) = (\<lambda>_. None)"
    using live by (auto simp: fun_eq_iff)
  ultimately have "freeDB s = Some (s\<lparr>heap := (\<lambda>_. None), head := None\<rparr>)"
    by (simp add: freeDB_def)
  with assms(2) show ?thesis
    by (simp add: loadDB_def say_def)
qed

text \<open>Witness for C9: the same load of the missing backup file.\<close>

theorem loadDB_failure_witness:
  "loadDB atof_dec backup_path one_record =
     Some (one_record\<lparr>heap := (\<lambda>_. None), head := None, hashTable := (\<lambda>_. None),
             dbLoaded := False, out := out one_record @ [CouldNotOpen backup_path]\<rparr>) \<and>
   dbModified one_record \<and> undoStack one_record = [INSERT_OP ann]"
proof -
  have "files one_record backup_path = None"
    by (simp add: one_record_def header_only_def backup_path_def primary_path_def)
  from loadDB_failure [OF wf_one_record this] show ?thesis
    by (simp add: one_record_def)
qed

subsection \<open>C2: \<open>k\<close> mutations, then \<open>k\<close> undos\<close>

text \<open>
  C2 states that \<open>k\<close> undos after \<open>k\<close> user mutations bring the record sequence back
  exactly, also when an update changed a field whose value was the empty string. The code
  breaks this: \<^verbatim>\<open>undo\<close> of an update calls \<^verbatim>\<open>updateDB\<close> with the old values, and
  \<^verbatim>\<open>updateDB\<close> skips an empty string, so an empty name is not put back. The opened empty
  table holds the record (2000005, "", Cs, 50.0), as \<^verbatim>\<open>INSERT ID=2000005 PROGRAMME=Cs
  MARK=50\<close> stores it. After the update of the name to Eve and one undo the name is still
  Eve, and the program reports that it undid the update.
\<close>

theorem undo_keeps_name_of_update:
  "(insertDB 2000005 [] ''Cs'' 50 False empty_db \<bind>
    (\<lambda>s. run atof [UPDATE 2000005 ''Eve'' [] 50, UNDO] s \<bind>
       (\<lambda>s'. Some (records s, records s', last (out s')))))
   = Some (Some [\<lparr>id_num = 2000005, name = [], programme = ''Cs'', mark = 50\<rparr>],
           Some [\<lparr>id_num = 2000005, name = ''Eve'', programme = ''Cs'', mark = 50\<rparr>],
           UndidUpdate 2000005)"
  by (simp add: store_eval empty_db_def)

text \<open>The record with the empty name, from the command line.\<close>

lemma insert_without_name:
  "(main_INSERT atof_dec ''INSERT ID=2000005 PROGRAMME=Cs MARK=50'' empty_db \<bind> records)
   = Some [\<lparr>id_num = 2000005, name = [], programme = ''Cs'', mark = 50\<rparr>]"
  by (simp add: main_INSERT_def parse_eval string_eval store_eval decimal_eval empty_db_def)

text \<open>
  A second run in which two undos do not bring the record back, with no empty field. The
  ids 2000000 and 2002003 share bucket 1006. The table holds Ann (2000000, mark 50); her
  mark is set to 75 and Bob (2002003) is inserted. The undo of the insert removes Bob
  from the bucket with \<^verbatim>\<open>hashTable[index] = cur->next\<close>, which empties the bucket; the
  undo of the update then does not find Ann, returns without a change, and is reported as
  done. The mark stays 75.
\<close>

lemma undo_of_update_misses_record:
  "(insertDB 2000000 ''Ann'' ''Cs'' 50 False empty_db \<bind>
    (\<lambda>s. run atof [UPDATE 2000000 [] [] 75, INSERT 2002003 ''Bob'' ''Cs'' 60, UNDO, UNDO] s \<bind>
       (\<lambda>s'. Some (records s, records s', findNode s' 2000000, out s'))))
   = Some (Some [\<lparr>id_num = 2000000, name = ''Ann'', programme = ''Cs'', mark = 50\<rparr>],
           Some [\<lparr>id_num = 2000000, name = ''Ann'', programme = ''Cs'', mark = 75\<rparr>],
           Some None,
           [SuccessfullyOpened, Inserted 2000000, Updated 2000000, Inserted 2002003,
            UndidInsert 2002003, UndidUpdate 2000000])"
  by (simp add: store_eval empty_db_def)

text \<open>
  Two deletes and two undos in the store of Ann, Bob and Cy: after the delete of Ann her
  bucket still points to her freed node (\<^verbatim>\<open>hashRemove\<close> compares the bucket head with
  the \<^verbatim>\<open>next\<close> of the node), and the second undo looks her id up through it.
\<close>

lemma two_deletes_two_undos_undefined:
  "run atof_dec [DELETE 2000001, DELETE 2000002, UNDO, UNDO] three_records = None"
  by (simp add: run_eval)

text \<open>
  The order of the sequence, when a record is deleted from the middle: \<^verbatim>\<open>undo\<close> of a
  delete calls \<^verbatim>\<open>insertDB\<close>, which appends at the tail. In the store of Ann, Bob and Cy,
  the delete of Bob and its undo give Ann, Cy, Bob.
\<close>

lemma undo_of_delete_appends:
  "\<exists>s'. run atof_dec [DELETE 2000002, UNDO] three_records = Some s' \<and>
        records three_records = Some [ann, bob, cy] \<and> records s' = Some [ann, cy, bob]"
  by (simp add: run_eval)

subsection \<open>C4: undo, then redo\<close>

text \<open>
  C4 states that \<^verbatim>\<open>undo\<close> followed by \<^verbatim>\<open>redo\<close> is the identity on the store state,
  lookup by id included, for every kind of action on top of the undo stack. The code
  breaks this for the lookup. The ids 2002003 and 2000000 share bucket 1006. After the
  inserts of Bob (2002003) and Ann (2000000) into the opened empty table and the delete of
  Bob, the sequence holds Ann, the delete of Bob is on top of the undo stack, and
  \<^verbatim>\<open>findNode\<close> finds Ann. The undo inserts Bob again, at the head of the bucket; the redo
  deletes him, and \<^verbatim>\<open>hashRemove\<close> sets the bucket to his \<^verbatim>\<open>next\<close>, which is
  \<^verbatim>\<open>NULL\<close>. The sequence and the stack are as before, but \<^verbatim>\<open>findNode\<close> no longer
  finds Ann.
\<close>

theorem undo_then_redo_loses_lookup:
  "(run atof [INSERT 2002003 ''Bob'' ''Cs'' 60, INSERT 2000000 ''Ann'' ''Cs'' 50,
              DELETE 2002003] empty_db \<bind>
    (\<lambda>s. run atof [UNDO, REDO] s \<bind>
       (\<lambda>s'. Some (hd (undoStack s), records s, findNode s 2000000,
                    hd (undoStack s'), records s', findNode s' 2000000))))
   = Some (DELETE_OP \<lparr>id_num = 2002003, name = ''Bob'', programme = ''Cs'', mark = 60\<rparr>,
           Some [\<lparr>id_num = 2000000, name = ''Ann'', programme = ''Cs'', mark = 50\<rparr>],
           Some (Some 1),
           DELETE_OP \<lparr>id_num = 2002003, name = ''Bob'', programme = ''Cs'', mark = 60\<rparr>,
           Some [\<lparr>id_num = 2000000, name = ''Ann'', programme = ''Cs'', mark = 50\<rparr>],
           Some None)"
  by (simp add: store_eval empty_db_def)

text \<open>
  The order of the sequence can change too. In the store of Ann, Bob and Cy, delete Bob
  and undo the delete: the sequence is Ann, Cy, Bob, and the top of the undo stack is the
  insert of Cy. Undo deletes Cy and redo appends her (\<^verbatim>\<open>insertDB\<close> appends at the tail):
  the sequence is Ann, Bob, Cy.
\<close>

lemma undo_then_redo_reorders:
  "\<exists>s s'. run atof_dec [DELETE 2000002, UNDO] three_records = Some s \<and>
          undoStack s \<noteq> [] \<and> run atof_dec [UNDO, REDO] s = Some s' \<and>
          records s = Some [ann, cy, bob] \<and> records s' = Some [ann, bob, cy]"
  by (simp add: run_eval)

subsection \<open>C8: save, then load into a fresh store\<close>

text \<open>
  C8 states that the saved file, loaded into a fresh store, gives the records back with
  the same marks. \<^verbatim>\<open>saveDB\<close> prints a mark with one fractional digit. Counterexample:
  the store with the record of Ann and the mark 0.625 (an exact \<^verbatim>\<open>float\<close>); the file
  holds \<^verbatim>\<open>0.6\<close>, and the loaded mark is 0.6.
\<close>

theorem save_then_load_counterexample:
  "\<exists>s1 t. saveDB fmt1_dec fine_mark = Some s1 \<and>
          loadDB atof_dec primary_path (init (files s1)) = Some t \<and>
          records fine_mark = Some [ann\<lparr>mark := 5 / 8\<rparr>] \<and>
          records t = Some [ann\<lparr>mark := 3 / 5\<rparr>]"
proof -
  have "text_file (files fine_mark primary_path)"
    by (simp add: text_file_def fine_mark_def header_only_def file_header_no_NUL)
  moreover have "dbLoaded fine_mark" "writable fine_mark primary_path"
    by (simp_all add: fine_mark_def)
  ultimately obtain s1 where s1: "saveDB fmt1_dec fine_mark = Some s1"
    and f: "files s1 primary_path = Some (saved fmt1_dec [ann\<lparr>mark := 5 / 8\<rparr>])"
    using saveDB_files [OF sound_fine_mark, of fmt1_dec] by blast
  from f have "files (init (files s1)) primary_path =
      Some (file_header @ ''2000001'' @ TAB # ''Ann'' @ TAB # ''Cs'' @ TAB # ''0.6'' @ [LF])"
    by (simp add: init_def saved_fine)
  from loadDB_runs [OF sound_init this file_records_fine] loadable_ann
  obtain t where "loadDB atof_dec primary_path (init (files s1)) = Some t"
    "sound t [ann\<lparr>mark := 3 / 5\<rparr>]" by auto
  with s1 sound_records [OF sound_fine_mark] show ?thesis
    by (auto dest: sound_records)
qed

text \<open>
  A second case: a name that contains a header text. \<^verbatim>\<open>loadDB\<close> takes the line of
  the record for a header line and skips it; the fresh store is empty.
\<close>

lemma name_with_header_text_is_skipped:
  "\<exists>s s1 t. insertDB 2000001 ''Authors: P4-1'' ''Cs'' 50 False empty_db = Some s \<and>
            records s = Some [ann\<lparr>name := ''Authors: P4-1''\<rparr>] \<and>
            saveDB fmt1_dec s = Some s1 \<and>
            loadDB atof_dec primary_path (init (files s1)) = Some t \<and> records t = Some []"
proof -
  let ?r = "ann\<lparr>name := ''Authors: P4-1''\<rparr>"
  let ?l = "''2000001'' @ TAB # ''Authors: P4-1'' @ TAB # ''Cs'' @ TAB # ''50.0''"
  obtain s where s: "insertDB 2000001 ''Authors: P4-1'' ''Cs'' 50 False empty_db = Some s"
    by (simp add: store_eval empty_db_def)
  have c: "coherent_at empty_db 2000001"
    by (simp add: store_eval coherent_at_def empty_db_def)
  have r: "\<lparr>id_num = 2000001, name = ''Authors: P4-1'', programme = ''Cs'', mark = 50\<rparr> = ?r"
    by (simp add: ann_def)
  from sound_insert [OF sound_empty_db c _ s] r
  have snd: "sound s [?r]" and fr: "frame s = frame empty_db" by simp_all
  from fr have "dbLoaded s" "writable s primary_path" "text_file (files s primary_path)"
    by (simp_all add: frame_def empty_db_def text_file_def header_only_def file_header_no_NUL)
  from saveDB_files [OF snd this, of fmt1_dec] obtain s1 where s1: "saveDB fmt1_dec s = Some s1"
    and f: "files s1 primary_path = Some (saved fmt1_dec [?r])" by blast
  have "saved fmt1_dec [?r] = file_header @ ?l @ [LF]"
    by (simp add: saved_def format_line_def ann_def show_int_2000001 fmt1_dec_50 MAX_LINE_def)
  with f have f1: "files (init (files s1)) primary_path = Some (file_header @ ?l @ [LF])"
    by (simp add: init_def)
  have "file_records atof_dec (?l @ LF # []) = file_records atof_dec []"
    by (rule file_records_skip) (simp_all add: string_eval)
  then have "file_records atof_dec (file_header @ ?l @ [LF]) = Some []"
    by (simp add: file_records_header file_records_Nil)
  from loadDB_runs [OF sound_init f1 this]
  obtain t where "loadDB atof_dec primary_path (init (files s1)) = Some t" "sound t []"
    by auto
  with s s1 snd show ?thesis by (auto dest: sound_records)
qed

text \<open>
  C8 as amended: take a well-formed, loaded store whose records are all storable (see
  \<open>storable\<close>: among others, the printed mark reads back as the same mark, and the
  line contains none of the header texts), a writable primary file, and no NUL byte in
  the primary file on disk. Then \<^verbatim>\<open>saveDB\<close> returns, the primary file afterwards is the
  header followed by the lines of the records, and \<^verbatim>\<open>loadDB\<close> of this file into a
  fresh store gives the same records in the same order.
\<close>

theorem save_then_load_roundtrip:
  assumes "well_formed s" and "records s = Some rs" and "\<forall>r\<in>set rs. storable atof fmt1 r"
    and "dbLoaded s" and "writable s primary_path" and "text_file (files s primary_path)"
  shows "\<exists>s1 t. saveDB fmt1 s = Some s1 \<and>
           files s1 primary_path = Some (file_header @ concat (map (format_line fmt1) rs)) \<and>
           loadDB atof primary_path (init (files s1)) = Some t \<and> records t = Some rs"
proof -
  from assms(1) obtain as where "wf s as" by (auto simp: well_formed_def)
  with assms(2) have s: "sound s rs" by (auto simp: sound_def wf_records)
  from saveDB_files [OF s assms(4-6), of fmt1] obtain s1 where s1: "saveDB fmt1 s = Some s1"
    and f: "files s1 primary_path = Some (saved fmt1 rs)" by blast
  have "files (init (files s1)) primary_path = Some (saved fmt1 rs)"
    using f by (simp add: init_def)
  from loadDB_runs [OF sound_init this file_records_of_saved [OF assms(3)]] assms(3)
  obtain t where "loadDB atof primary_path (init (files s1)) = Some t" "sound t rs"
    by (auto dest: storable_loadable)
  with s1 f show ?thesis by (auto simp: saved_def dest: sound_records)
qed

text \<open>Witness for C8 as amended: the store with the record of Ann, mark 50.\<close>

theorem save_then_load_roundtrip_witness:
  "\<exists>s1 t. saveDB fmt1_dec one_record = Some s1 \<and>
          files s1 primary_path = Some (file_header @ concat (map (format_line fmt1_dec) [ann])) \<and>
          loadDB atof_dec primary_path (init (files s1)) = Some t \<and> records t = Some [ann]"
proof -
  have wf: "well_formed one_record"
    using wf_one_record by (auto simp: well_formed_def)
  have st: "\<forall>r\<in>set [ann]. storable atof_dec fmt1_dec r"
    by (simp add: storable_ann)
  have "dbLoaded one_record" "writable one_record primary_path"
    "text_file (files one_record primary_path)"
    by (simp_all add: one_record_def text_file_def header_only_def file_header_no_NUL)
  from save_then_load_roundtrip [OF wf records_one_record st this]
  show ?thesis .
qed

subsection \<open>C7: load, then save\<close>

text \<open>
  C7 states that a save right after a load writes nothing, for every file that the load
  accepts. \<^verbatim>\<open>saveDB\<close> compares the bytes of the file with the text it would write.
  Counterexample: the header and the line of Ann with the mark written as \<^verbatim>\<open>75\<close>. The
  load accepts it; the save writes the old bytes to the backup file and the line with
  \<^verbatim>\<open>75.0\<close> to the primary file, and reports that the file has been saved.
\<close>

theorem load_then_save_counterexample:
  "\<exists>t u. loadDB atof_dec primary_path (init hand_written) = Some t \<and>
         saveDB fmt1_dec t = Some u \<and> out u = [SuccessfullyOpened, Saved] \<and>
         files t backup_path = None \<and> files u backup_path = files t primary_path \<and>
         files u primary_path =
           Some (file_header @ ''2000001'' @ TAB # ''Ann'' @ TAB # ''Cs'' @ TAB # ''75.0'' @ [LF]) \<and>
         files u primary_path \<noteq> files t primary_path"
proof -
  let ?fc = "file_header @ ''2000001'' @ TAB # ''Ann'' @ TAB # ''Cs'' @ TAB # ''75'' @ [LF]"
  let ?mem = "file_header @ ''2000001'' @ TAB # ''Ann'' @ TAB # ''Cs'' @ TAB # ''75.0'' @ [LF]"
  have "files (init hand_written) primary_path = Some ?fc"
    by (simp add: init_def hand_written_def)
  from loadDB_runs [OF sound_init this file_records_hand_written] loadable_ann
  obtain t where t: "loadDB atof_dec primary_path (init hand_written) = Some t"
    and s: "sound t [ann\<lparr>mark := 75\<rparr>]" and f: "files t = hand_written"
    and w: "writable t = (\<lambda>_. True)" and l: "dbLoaded t" and o: "out t = [SuccessfullyOpened]"
    by (auto simp: init_def)
  have "NUL \<notin> set ?fc"
    using file_header_no_NUL by (simp add: TAB_def LF_def NUL_def)
  then have c: "c_str ?fc = ?fc" by (rule c_str_text)
  have ne: "?fc \<noteq> ?mem" by simp
  have paths: "backup_path \<noteq> primary_path"
    by (simp add: backup_path_def primary_path_def)
  from save_loop_sound [OF s, of fmt1_dec] have m: "save_loop fmt1_dec (heap t) (head t) file_header = Some ?mem"
    by (simp add: saved_75)
  have "saveDB fmt1_dec t =
      Some (say Saved (t\<lparr>files := (files t)(backup_path \<mapsto> ?fc, primary_path \<mapsto> ?mem),
                          dbModified := False\<rparr>))"
    using l w f m c ne by (simp add: saveDB_def hand_written_def Let_def)
  with t f o paths show ?thesis
    by (simp add: say_def hand_written_def)
qed

text \<open>
  When a save in a loaded store writes nothing: exactly when the primary file is not empty
  and its bytes, up to the first NUL, are the text that \<^verbatim>\<open>saveDB\<close> would write.
\<close>

lemma saveDB_after_load:
  assumes "sound t rs" and "dbLoaded t" and "files t primary_path = Some bytes"
  shows "saveDB fmt1 t = Some (say NoChanges t) \<longleftrightarrow> bytes \<noteq> [] \<and> c_str bytes = saved fmt1 rs"
  using assms(2,3) save_loop_sound [OF assms(1), of fmt1]
  by (auto simp: saveDB_def Let_def say_def split: if_splits dest!: arg_cong [where f = out])

text \<open>
  C7 as amended: if the primary file is the header followed by the lines of storable
  records, as \<^verbatim>\<open>saveDB\<close> writes them, then \<^verbatim>\<open>loadDB\<close> succeeds with these records,
  and \<^verbatim>\<open>saveDB\<close> right after it only prints the message that there are no changes:
  it writes neither the backup nor the primary file.
\<close>

theorem load_then_save_writes_nothing:
  assumes "well_formed s"
    and "files s primary_path = Some (file_header @ concat (map (format_line fmt1) rs))"
    and "\<forall>r\<in>set rs. storable atof fmt1 r"
  shows "\<exists>t. loadDB atof primary_path s = Some t \<and> records t = Some rs \<and>
           saveDB fmt1 t = Some (say NoChanges t)"
proof -
  from assms(1) obtain as where "wf s as" by (auto simp: well_formed_def)
  then have s: "sound s (recs_of (heap s) as)" by (auto simp: sound_def)
  from assms(2) have f: "files s primary_path = Some (saved fmt1 rs)" by (simp add: saved_def)
  from loadDB_runs [OF s f file_records_of_saved [OF assms(3)]] assms(3)
  obtain t where t: "loadDB atof primary_path s = Some t" "sound t rs" "files t = files s"
    "dbLoaded t"
    by (auto dest: storable_loadable)
  from c_str_text [OF saved_text [OF assms(3)]] have "c_str (saved fmt1 rs) = saved fmt1 rs" .
  with t f save_loop_sound [OF t(2), of fmt1] saved_not_Nil [of fmt1 rs]
  have "saveDB fmt1 t = Some (say NoChanges t)"
    by (simp add: saveDB_def Let_def)
  with t show ?thesis by (auto dest: sound_records)
qed

text \<open>Witness for C7 as amended: the file that holds the header and the line of Ann.\<close>

theorem load_then_save_writes_nothing_witness:
  "\<exists>t. loadDB atof_dec primary_path (init saved_ann) = Some t \<and> records t = Some [ann] \<and>
       saveDB fmt1_dec t = Some (say NoChanges t)"
proof -
  have wf: "well_formed (init saved_ann)"
    using sound_init [of saved_ann] by (auto simp: sound_def well_formed_def)
  have f: "files (init saved_ann) primary_path =
      Some (file_header @ concat (map (format_line fmt1_dec) [ann]))"
    by (simp add: init_def saved_ann_def saved_def)
  have st: "\<forall>r\<in>set [ann]. storable atof_dec fmt1_dec r"
    by (simp add: storable_ann)
  from load_then_save_writes_nothing [OF wf f st]
  show ?thesis .
qed

end
